theory Spec2Isabelle
  imports Main "HOL-Library.Multiset"
begin

section \<open>The data model of dependency\_graph.py\<close>

text \<open>
  Every \<^verbatim>\<open>raise Exception(...)\<close> of the source is a value of \<open>error\<close>, named after
  the condition it signals.  \<open>UnknownNode\<close> is the \<^verbatim>\<open>KeyError\<close> of \<^verbatim>\<open>self.nodes[key]\<close>,
  \<open>RecursionError\<close> is Python's own error for a call nested deeper than the interpreter's
  recursion limit.
\<close>

datatype error =
    DuplicateNode
  | SelfLoop
  | UnknownNode
  | DuplicateRelation
  | CycleDetected
  | InvalidRelation
  | RecursionError

text \<open>
  A \<^verbatim>\<open>Node\<close> object is referred to by its name: \<^verbatim>\<open>add_node\<close> files a node under
  \<^verbatim>\<open>node.name\<close> and refuses a second node of that name, so inside one graph the name
  determines the object, and the identity comparison \<^verbatim>\<open>node == other\<close> (class
  \<^verbatim>\<open>Node\<close> has no \<^verbatim>\<open>__eq__\<close>) is the comparison of names.  An \<^verbatim>\<open>Edge\<close> holds the
  references of its two end points.
\<close>

datatype 'n edge = Edge (from_node: 'n) (to_node: 'n)

record ('n, 'd) node =
  edges :: "'n edge list"
  outgoing_edges :: "'n edge list"
  incoming_edges :: "'n edge list"
  p_depends_on :: "'n set"
  name :: 'n
  data :: 'd

definition Node :: "'n \<Rightarrow> 'd \<Rightarrow> ('n, 'd) node" where
  "Node nm d = \<lparr>edges = [], outgoing_edges = [], incoming_edges = [],
                p_depends_on = {}, name = nm, data = d\<rparr>"

text \<open>The dict \<^verbatim>\<open>self.nodes\<close> keeps its keys in insertion order: an association list.\<close>

record ('n, 'd) directed_graph =
  nodes :: "('n \<times> ('n, 'd) node) list"
  paths :: "'n list list"
  cache_dirty :: bool

definition DirectedGraph :: "('n, 'd) directed_graph" where
  "DirectedGraph = \<lparr>nodes = [], paths = [], cache_dirty = True\<rparr>"

section \<open>Class Edge\<close>

definition connected_to_node :: "'n edge \<Rightarrow> 'n \<Rightarrow> bool" where
  "connected_to_node e n = (if from_node e = n \<or> to_node e = n then True else False)"

text \<open>The two direction tests return \<^verbatim>\<open>True\<close> or fall off their end (\<^verbatim>\<open>None\<close>, which is false).\<close>

definition is_outgoing_edge :: "'n edge \<Rightarrow> 'n \<Rightarrow> error + bool" where
  "is_outgoing_edge e n =
     (if \<not> connected_to_node e n then Inl InvalidRelation
      else if from_node e = n then Inr True else Inr False)"

definition is_incoming_edge :: "'n edge \<Rightarrow> 'n \<Rightarrow> error + bool" where
  "is_incoming_edge e n =
     (if \<not> connected_to_node e n then Inl InvalidRelation
      else if to_node e = n then Inr True else Inr False)"

text \<open>\<^verbatim>\<open>Edge.__eq__\<close>.\<close>

definition edge_eq :: "'n edge \<Rightarrow> 'n edge \<Rightarrow> bool" where
  "edge_eq e other =
     (if from_node e = from_node other \<and> to_node e = to_node other then True
      else if from_node e = to_node other \<and> to_node e = from_node other then True
      else False)"

section \<open>Class Node\<close>

fun has_edge_loop :: "'n edge list \<Rightarrow> 'n edge \<Rightarrow> bool" where
  "has_edge_loop [] other_edge = False"
| "has_edge_loop (e # es) other_edge =
     (if edge_eq other_edge e then True else has_edge_loop es other_edge)"

definition has_edge :: "('n, 'd) node \<Rightarrow> 'n edge \<Rightarrow> bool" where
  "has_edge nd other_edge = has_edge_loop (edges nd) other_edge"

text \<open>
  \<^verbatim>\<open>any(edge.is_incoming_edge(self) for edge in self.edges)\<close>: the generator is consumed
  up to the first true element, and an exception of an element leaves \<^verbatim>\<open>any\<close>.
\<close>

fun any_incoming :: "'n edge list \<Rightarrow> 'n \<Rightarrow> error + bool" where
  "any_incoming [] n = Inr False"
| "any_incoming (e # es) n =
     (case is_incoming_edge e n of
        Inl err \<Rightarrow> Inl err
      | Inr b \<Rightarrow> if b then Inr True else any_incoming es n)"

fun any_outgoing :: "'n edge list \<Rightarrow> 'n \<Rightarrow> error + bool" where
  "any_outgoing [] n = Inr False"
| "any_outgoing (e # es) n =
     (case is_outgoing_edge e n of
        Inl err \<Rightarrow> Inl err
      | Inr b \<Rightarrow> if b then Inr True else any_outgoing es n)"

definition has_incoming_edges :: "('n, 'd) node \<Rightarrow> error + bool" where
  "has_incoming_edges nd = any_incoming (edges nd) (name nd)"

definition has_outgoing_edges :: "('n, 'd) node \<Rightarrow> error + bool" where
  "has_outgoing_edges nd = any_outgoing (edges nd) (name nd)"

definition add_dependency :: "'n \<Rightarrow> ('n, 'd) node \<Rightarrow> ('n, 'd) node" where
  "add_dependency n nd = nd\<lparr>p_depends_on := insert n (p_depends_on nd)\<rparr>"

definition get_dependencies :: "('n, 'd) node \<Rightarrow> 'n set" where
  "get_dependencies nd = p_depends_on nd"

definition depends_on :: "('n, 'd) node \<Rightarrow> 'n \<Rightarrow> bool" where
  "depends_on nd n = (n \<in> p_depends_on nd)"

text \<open>\<^verbatim>\<open>Node.add_edge\<close>; the weak references of the two direction lists are never dead,
  since the edge stays in \<^verbatim>\<open>self.edges\<close>.\<close>

definition node_add_edge :: "('n, 'd) node \<Rightarrow> 'n edge \<Rightarrow> error + ('n, 'd) node" where
  "node_add_edge nd e =
     (if has_edge nd e then Inl DuplicateRelation
      else let nd1 = nd\<lparr>edges := edges nd @ [e]\<rparr>
           in if from_node e = name nd
              then Inr (nd1\<lparr>outgoing_edges := outgoing_edges nd1 @ [e]\<rparr>)
              else Inr (nd1\<lparr>incoming_edges := incoming_edges nd1 @ [e]\<rparr>))"

text \<open>\<^verbatim>\<open>Node.__lt__\<close>: \<^verbatim>\<open>self < other\<close>.\<close>

definition node_lt :: "('n, 'd) node \<Rightarrow> 'n \<Rightarrow> bool" where
  "node_lt nd other = (if name nd = other then False else depends_on nd other)"

section \<open>Class DirectedGraph\<close>

definition get_node :: "('n, 'd) directed_graph \<Rightarrow> 'n \<Rightarrow> ('n, 'd) node option" where
  "get_node g key = map_of (nodes g) key"

definition add_node :: "('n, 'd) directed_graph \<Rightarrow> ('n, 'd) node
    \<Rightarrow> (error + unit) \<times> ('n, 'd) directed_graph" where
  "add_node g nd =
     (if get_node g (name nd) \<noteq> None then (Inl DuplicateNode, g)
      else (Inr (), g\<lparr>nodes := nodes g @ [(name nd, nd)]\<rparr>))"

text \<open>
  A method that mutates a node object changes the object the dict holds, in place:
  \<open>update_node r f\<close> applies \<open>f\<close> to the node referred to by \<open>r\<close>.
\<close>

definition update_node :: "'n \<Rightarrow> (('n, 'd) node \<Rightarrow> ('n, 'd) node)
    \<Rightarrow> ('n, 'd) directed_graph \<Rightarrow> ('n, 'd) directed_graph" where
  "update_node r f g =
     g\<lparr>nodes := map (\<lambda>(k, nd). if k = r then (k, f nd) else (k, nd)) (nodes g)\<rparr>"

text \<open>
  \<^verbatim>\<open>DirectedGraph.add_edge\<close>.  The state is returned on failure too: what was
  changed before the exception stays changed.
\<close>

definition add_edge :: "('n, 'd) directed_graph \<Rightarrow> 'n \<Rightarrow> 'n
    \<Rightarrow> (error + unit) \<times> ('n, 'd) directed_graph" where
  "add_edge g from_node_key to_node_key =
     (if from_node_key = to_node_key then (Inl SelfLoop, g)
      else case get_node g from_node_key of
        None \<Rightarrow> (Inl UnknownNode, g)
      | Some from_nd \<Rightarrow>
         (case get_node g to_node_key of
            None \<Rightarrow> (Inl UnknownNode, g)
          | Some to_nd \<Rightarrow>
             (let new_edge = Edge (name from_nd) (name to_nd)
              in case node_add_edge from_nd new_edge of
                   Inl err \<Rightarrow> (Inl err, g)
                 | Inr from_nd' \<Rightarrow>
                    (let g1 = update_node (name from_nd) (\<lambda>_. from_nd') g
                     in case node_add_edge to_nd new_edge of
                          Inl err \<Rightarrow> (Inl err, g1)
                        | Inr to_nd' \<Rightarrow> (Inr (), update_node (name to_nd) (\<lambda>_. to_nd') g1)))))"

text \<open>
  Reading a field through a reference.  A reference held by a graph that was built with
  \<^verbatim>\<open>add_node\<close> and \<^verbatim>\<open>add_edge\<close> always points to a node of the graph; for any other
  name the two readers answer as a node without edges and dependencies would.
\<close>

definition outgoing_of :: "('n, 'd) directed_graph \<Rightarrow> 'n \<Rightarrow> 'n edge list" where
  "outgoing_of g r = (case get_node g r of None \<Rightarrow> [] | Some nd \<Rightarrow> outgoing_edges nd)"

definition dependencies_of :: "('n, 'd) directed_graph \<Rightarrow> 'n \<Rightarrow> 'n set" where
  "dependencies_of g r = (case get_node g r of None \<Rightarrow> {} | Some nd \<Rightarrow> get_dependencies nd)"

subsection \<open>find\_paths\<close>

text \<open>The first loop of \<^verbatim>\<open>find_paths\<close>: the nodes without incoming edges.\<close>

fun root_nodes_loop :: "('n \<times> ('n, 'd) node) list \<Rightarrow> 'n list \<Rightarrow> error + 'n list" where
  "root_nodes_loop [] root_nodes = Inr root_nodes"
| "root_nodes_loop ((key, nd) # items) root_nodes =
     (case has_incoming_edges nd of
        Inl err \<Rightarrow> Inl err
      | Inr b \<Rightarrow> if b then root_nodes_loop items root_nodes
                else root_nodes_loop items (root_nodes @ [name nd]))"

text \<open>\<^verbatim>\<open>for prev_node in current_path: ...\<close>\<close>

fun add_dependencies :: "'n list \<Rightarrow> 'n \<Rightarrow> ('n, 'd) directed_graph \<Rightarrow> ('n, 'd) directed_graph" where
  "add_dependencies [] current_node g = g"
| "add_dependencies (prev_node # rest) current_node g =
     (if prev_node = current_node then add_dependencies rest current_node g
      else add_dependencies rest current_node
             (update_node prev_node (add_dependency current_node) g))"

text \<open>
  \<^verbatim>\<open>node_stack\<close> is a Python list used as a stack (\<^verbatim>\<open>append\<close> and \<^verbatim>\<open>pop\<close> work at its
  end); the model keeps the top of the stack at the head of the list.
  \<^verbatim>\<open>for edge_ref in current_node.outgoing_edges: ...\<close> answers \<open>None\<close> where the source
  finds a target on the current path.
\<close>

fun push_targets :: "'n list \<Rightarrow> 'n edge list \<Rightarrow> ('n \<times> 'n list) list
    \<Rightarrow> ('n \<times> 'n list) list option" where
  "push_targets current_path [] node_stack = Some node_stack"
| "push_targets current_path (e # es) node_stack =
     (if to_node e \<in> set current_path then None
      else push_targets current_path es ((to_node e, current_path) # node_stack))"

text \<open>
  The \<^verbatim>\<open>while len(node_stack) > 0\<close> loop.  The result \<open>None\<close> is the state in which the
  source calls \<^verbatim>\<open>self.dump()\<close> and raises.
\<close>

function dfs_loop :: "('n, 'd) directed_graph \<Rightarrow> ('n \<times> 'n list) list \<Rightarrow> 'n list list
    \<Rightarrow> 'n list list option \<times> ('n, 'd) directed_graph" where
  "dfs_loop g [] ps = (Some ps, g)"
| "dfs_loop g ((current_node, path0) # node_stack) ps =
     (let current_path = path0 @ [current_node];
          g1 = add_dependencies current_path current_node g
      in if length (outgoing_of g1 current_node) = 0
         then (if current_path \<noteq> [] then dfs_loop g1 node_stack (ps @ [current_path])
               else dfs_loop g1 node_stack ps)
         else case push_targets current_path (outgoing_of g1 current_node) node_stack of
                None \<Rightarrow> (None, g1)
              | Some node_stack' \<Rightarrow> dfs_loop g1 node_stack' ps)"
  by pat_completeness auto

text \<open>\<^verbatim>\<open>for node in root_nodes: ...\<close>: one depth-first exploration per root.\<close>

fun explore_roots :: "('n, 'd) directed_graph \<Rightarrow> 'n list \<Rightarrow> 'n list list
    \<Rightarrow> 'n list list option \<times> ('n, 'd) directed_graph" where
  "explore_roots g [] ps = (Some ps, g)"
| "explore_roots g (node # root_nodes) ps =
     (case dfs_loop g [(node, [])] ps of
        (None, g1) \<Rightarrow> (None, g1)
      | (Some ps1, g1) \<Rightarrow> explore_roots g1 root_nodes ps1)"

text \<open>
  What \<^verbatim>\<open>dump\<close> prints, line by line.  The order in which Python iterates over the
  dependency set is not specified, so the last line of a node carries the set itself.
\<close>

datatype 'n line =
    Line_name 'n
  | Line_rule
  | Line_edges
  | Line_edge 'n 'n
  | Line_depends "'n set"
  | Line_blank

definition dump_lines :: "('n, 'd) directed_graph \<Rightarrow> 'n line list" where
  "dump_lines g =
     concat (map (\<lambda>(key, nd).
        [Line_name (name nd), Line_rule, Line_edges]
        @ map (\<lambda>e. Line_edge (name nd) (to_node e)) (outgoing_edges nd)
        @ [Line_rule, Line_depends (p_depends_on nd), Line_blank]) (nodes g))"

text \<open>
  \<^verbatim>\<open>find_paths\<close> and \<^verbatim>\<open>dump\<close> call each other.  The first argument is the number of
  nested calls the interpreter still allows (Python's recursion limit): at 0 the call
  raises \<^verbatim>\<open>RecursionError\<close>.  Both return their result, the graph as they leave it
  and the lines they printed.
\<close>

fun find_paths :: "nat \<Rightarrow> ('n, 'd) directed_graph
    \<Rightarrow> (error + 'n list list) \<times> ('n, 'd) directed_graph \<times> 'n line list"
and dump :: "nat \<Rightarrow> ('n, 'd) directed_graph
    \<Rightarrow> (error + unit) \<times> ('n, 'd) directed_graph \<times> 'n line list" where
  "find_paths 0 g = (Inl RecursionError, g, [])"
| "find_paths (Suc lim) g =
     (if \<not> cache_dirty g then (Inr (paths g), g, [])
      else case root_nodes_loop (nodes g) [] of
        Inl err \<Rightarrow> (Inl err, g, [])
      | Inr root_nodes \<Rightarrow>
         (case explore_roots g root_nodes [] of
            (None, g1) \<Rightarrow>
              (case dump lim g1 of
                 (Inl err, g2, out) \<Rightarrow> (Inl err, g2, out)
               | (Inr u, g2, out) \<Rightarrow> (Inl CycleDetected, g2, out))
          | (Some ps, g1) \<Rightarrow> (Inr ps, g1\<lparr>paths := ps\<rparr>, [])))"
| "dump 0 g = (Inl RecursionError, g, [])"
| "dump (Suc lim) g =
     (case find_paths lim g of
        (Inl err, g1, out) \<Rightarrow> (Inl err, g1, out)
      | (Inr ps, g1, out) \<Rightarrow> (Inr (), g1, out @ dump_lines g1))"

subsection \<open>create\_plan\<close>

text \<open>\<^verbatim>\<open>node < nodes[i]\<close> for two references.\<close>

definition lt :: "('n, 'd) directed_graph \<Rightarrow> 'n \<Rightarrow> 'n \<Rightarrow> bool" where
  "lt g node other = (case get_node g node of None \<Rightarrow> False | Some nd \<Rightarrow> node_lt nd other)"

text \<open>\<^verbatim>\<open>list.insert(i, x)\<close> for \<open>i \<ge> 0\<close>: an index past the end appends.\<close>

definition list_insert :: "nat \<Rightarrow> 'a \<Rightarrow> 'a list \<Rightarrow> 'a list" where
  "list_insert i x xs = take i xs @ x # drop i xs"

text \<open>\<^verbatim>\<open>for i in range(len(nodes)): ...\<close>, on the pair of the two indices it assigns.\<close>

fun scan_loop :: "('n, 'd) directed_graph \<Rightarrow> 'n \<Rightarrow> 'n list \<Rightarrow> nat list \<Rightarrow> int \<times> int
    \<Rightarrow> int \<times> int" where
  "scan_loop g node nodes_l [] (index_of_node, highest_idx) = (index_of_node, highest_idx)"
| "scan_loop g node nodes_l (i # is) (index_of_node, highest_idx) =
     (let index_of_node' = (if node = nodes_l ! i then int i else index_of_node);
          highest_idx' = (if lt g node (nodes_l ! i)
                          then (if int i > highest_idx then int i else highest_idx)
                          else highest_idx)
      in scan_loop g node nodes_l is (index_of_node', highest_idx'))"

text \<open>\<^verbatim>\<open>for node in nodes_to_insert: ...\<close>; \<^verbatim>\<open>index_of_node\<close> lives across the iterations.\<close>

fun plan_loop :: "('n, 'd) directed_graph \<Rightarrow> 'n list \<Rightarrow> 'n list \<Rightarrow> int \<Rightarrow> 'n list" where
  "plan_loop g [] nodes_l index_of_node = nodes_l"
| "plan_loop g (node # nodes_to_insert) nodes_l index_of_node =
     (case scan_loop g node nodes_l [0..<length nodes_l] (index_of_node, 0) of
        (index_of_node', highest_idx) \<Rightarrow>
          if highest_idx + 1 > index_of_node'
          then plan_loop g nodes_to_insert
                 (remove1 node (list_insert (nat (highest_idx + 1)) node nodes_l)) index_of_node'
          else plan_loop g nodes_to_insert nodes_l index_of_node')"

definition create_plan :: "nat \<Rightarrow> ('n, 'd) directed_graph
    \<Rightarrow> (error + 'n list) \<times> ('n, 'd) directed_graph \<times> 'n line list" where
  "create_plan lim g =
     (case find_paths lim g of
        (Inl err, g1, out) \<Rightarrow> (Inl err, g1, out)
      | (Inr ps, g1, out) \<Rightarrow>
          (let nodes_l = map (\<lambda>(key, nd). name nd) (nodes g1)
           in (Inr (plan_loop g1 nodes_l nodes_l (- 1)), g1, out)))"

section \<open>Graphs built through the public operations\<close>

text \<open>
  A caller builds a graph by a sequence of calls on a fresh \<^verbatim>\<open>DirectedGraph()\<close>;
  \<^verbatim>\<open>add_node\<close> is given a fresh \<^verbatim>\<open>Node(name, data)\<close>.  A call that raises leaves the
  graph as it was at the \<^verbatim>\<open>raise\<close>, and the caller may go on.  \<open>call_state lim g c\<close> is
  the graph after the call \<open>c\<close>, made where \<open>lim\<close> nested calls are still allowed.
\<close>

datatype ('n, 'd) call =
    Add_node 'n 'd
  | Add_edge 'n 'n
  | Get_node 'n
  | Find_paths
  | Create_plan
  | Dump

fun call_state :: "nat \<Rightarrow> ('n, 'd) directed_graph \<Rightarrow> ('n, 'd) call \<Rightarrow> ('n, 'd) directed_graph" where
  "call_state lim g (Add_node nm d) = snd (add_node g (Node nm d))"
| "call_state lim g (Add_edge a b) = snd (add_edge g a b)"
| "call_state lim g (Get_node key) = g"
| "call_state lim g Find_paths = fst (snd (find_paths lim g))"
| "call_state lim g Create_plan = fst (snd (create_plan lim g))"
| "call_state lim g Dump = fst (snd (dump lim g))"

definition run :: "nat \<Rightarrow> ('n, 'd) call list \<Rightarrow> ('n, 'd) directed_graph" where
  "run lim calls = foldl (call_state lim) DirectedGraph calls"

section \<open>Notions used in the statements\<close>

text \<open>
  The measure of the depth-first loop: the edge targets of a graph, the number of those
  not yet on the path of a frame, and the weights of the frames of a stack.
\<close>

definition universe :: "('n, 'd) directed_graph \<Rightarrow> 'n set" where
  "universe g = (\<Union>(k, nd) \<in> set (nodes g). to_node ` set (outgoing_edges nd))"

definition frame_weight :: "('n, 'd) directed_graph \<Rightarrow> 'n \<times> 'n list \<Rightarrow> nat" where
  "frame_weight g fr = card (universe g - set (snd fr) - {fst fr})"

definition stack_weight :: "('n, 'd) directed_graph \<Rightarrow> ('n \<times> 'n list) list \<Rightarrow> nat multiset" where
  "stack_weight g st = mset (map (frame_weight g) st)"

text \<open>The keys of the dict in insertion order, and the edge list of a node read through
  its reference.\<close>

definition keys :: "('n, 'd) directed_graph \<Rightarrow> 'n list" where
  "keys g = map fst (nodes g)"

definition edges_of :: "('n, 'd) directed_graph \<Rightarrow> 'n \<Rightarrow> 'n edge list" where
  "edges_of g r = (case get_node g r of None \<Rightarrow> [] | Some nd \<Rightarrow> edges nd)"

text \<open>The directed edges of a graph: the outgoing edges of its nodes.\<close>

definition graph_edges :: "('n, 'd) directed_graph \<Rightarrow> 'n edge list" where
  "graph_edges g = concat (map (\<lambda>(key, nd). outgoing_edges nd) (nodes g))"

definition edge_rel :: "('n, 'd) directed_graph \<Rightarrow> ('n \<times> 'n) set" where
  "edge_rel g = (\<lambda>e. (from_node e, to_node e)) ` set (graph_edges g)"

text \<open>
  \<open>well_formed\<close>: the keys of the dict are distinct and are the names of their nodes; every
  edge of a node's list touches the node, is no self-loop and stands in the lists of both
  its end points; the outgoing list holds the edges that start at the node; the flag
  \<^verbatim>\<open>_cache_dirty\<close> is set.
\<close>

definition well_formed :: "('n, 'd) directed_graph \<Rightarrow> bool" where
  "well_formed g \<longleftrightarrow>
     distinct (keys g) \<and> cache_dirty g \<and>
     (\<forall>k nd. get_node g k = Some nd \<longrightarrow>
        name nd = k \<and>
        outgoing_edges nd = filter (\<lambda>e. from_node e = k) (edges nd) \<and>
        incoming_edges nd = filter (\<lambda>e. from_node e \<noteq> k) (edges nd) \<and>
        (\<forall>e \<in> set (edges nd).
           connected_to_node e k \<and> from_node e \<noteq> to_node e \<and>
           e \<in> set (edges_of g (from_node e)) \<and> e \<in> set (edges_of g (to_node e))))"

text \<open>
  The nodes of a graph with their dependency sets emptied.  \<^verbatim>\<open>find_paths\<close>, \<^verbatim>\<open>dump\<close>
  and \<^verbatim>\<open>create_plan\<close> change nothing of a graph but the dependency sets of its nodes
  and the field \<^verbatim>\<open>paths\<close>: they keep this structure.
\<close>

definition skeleton :: "('n, 'd) directed_graph \<Rightarrow> ('n \<times> ('n, 'd) node) list" where
  "skeleton g = map (\<lambda>(k, nd). (k, nd\<lparr>p_depends_on := {}\<rparr>)) (nodes g)"

definition same_structure :: "('n, 'd) directed_graph \<Rightarrow> ('n, 'd) directed_graph \<Rightarrow> bool" where
  "same_structure g g' \<longleftrightarrow> skeleton g' = skeleton g \<and> cache_dirty g' = cache_dirty g"

text \<open>
  The traversal of \<^verbatim>\<open>find_paths\<close> without its memo, as the specification words it: the
  roots are found and explored afresh; \<open>None\<close> where the traversal does not return paths.
\<close>

definition fresh_traversal :: "('n, 'd) directed_graph \<Rightarrow> 'n list list option" where
  "fresh_traversal g =
     (case root_nodes_loop (nodes g) [] of
        Inl err \<Rightarrow> None
      | Inr root_nodes \<Rightarrow> fst (explore_roots g root_nodes []))"

text \<open>Two graphs with a directed cycle: one without a root, one whose cycle is reachable
  from the root \<open>r\<close>.\<close>

definition rootless_cycle :: "(string, unit) directed_graph" where
  "rootless_cycle = run 1 [Add_node ''a'' (), Add_node ''b'' (), Add_node ''c'' (),
     Add_edge ''a'' ''b'', Add_edge ''b'' ''c'', Add_edge ''c'' ''a'']"

definition rooted_cycle :: "(string, unit) directed_graph" where
  "rooted_cycle = run 1 [Add_node ''r'' (), Add_node ''a'' (), Add_node ''b'' (), Add_node ''c'' (),
     Add_edge ''r'' ''a'', Add_edge ''a'' ''b'', Add_edge ''b'' ''c'', Add_edge ''c'' ''a'']"

text \<open>A root is a node of the graph without incoming edge; a path follows the edges.\<close>

definition is_root :: "('n, 'd) directed_graph \<Rightarrow> 'n \<Rightarrow> bool" where
  "is_root g k \<longleftrightarrow> k \<in> set (keys g) \<and> (\<nexists>u. (u, k) \<in> edge_rel g)"

abbreviation path_in :: "('n \<times> 'n) set \<Rightarrow> 'n list \<Rightarrow> bool" where
  "path_in E xs \<equiv> successively (\<lambda>u v. (u, v) \<in> E) xs"

text \<open>\<open>deps_sound\<close>: every recorded dependency is reachable by a non-empty walk along the
  edges.\<close>

definition deps_sound :: "('n, 'd) directed_graph \<Rightarrow> bool" where
  "deps_sound g \<longleftrightarrow> (\<forall>k m. m \<in> dependencies_of g k \<longrightarrow> (k, m) \<in> (edge_rel g)\<^sup>+)"

text \<open>\<open>before xs a b\<close>: \<open>a\<close> stands at an earlier position of \<open>xs\<close> than \<open>b\<close>.\<close>

definition before :: "'a list \<Rightarrow> 'a \<Rightarrow> 'a \<Rightarrow> bool" where
  "before xs a b \<longleftrightarrow> (\<exists>i j. i < j \<and> j < length xs \<and> xs ! i = a \<and> xs ! j = b)"

text \<open>One iteration of the loop over \<^verbatim>\<open>nodes_to_insert\<close>, on the list.\<close>

definition plan_step :: "('n, 'd) directed_graph \<Rightarrow> 'n \<Rightarrow> 'n list \<Rightarrow> int \<Rightarrow> 'n list" where
  "plan_step g node nodes_l index_of_node =
     (case scan_loop g node nodes_l [0..<length nodes_l] (index_of_node, 0) of
        (index_of_node', highest_idx) \<Rightarrow>
          if highest_idx + 1 > index_of_node'
          then remove1 node (list_insert (nat (highest_idx + 1)) node nodes_l)
          else nodes_l)"

text \<open>An acyclic graph: \<open>a \<rightarrow> b\<close>, \<open>a \<rightarrow> d\<close>, \<open>b \<rightarrow> d\<close>, \<open>c \<rightarrow> a\<close>.\<close>

definition small_dag :: "(string, unit) directed_graph" where
  "small_dag = run 1 [Add_node ''a'' (), Add_node ''b'' (), Add_node ''c'' (), Add_node ''d'' (),
     Add_edge ''a'' ''b'', Add_edge ''a'' ''d'', Add_edge ''b'' ''d'', Add_edge ''c'' ''a'']"

section \<open>Termination of the depth-first loop\<close>

text \<open>
  Termination of the loop: a frame's weight is the number of edge targets of the graph that
  are not on its path; a pop replaces a frame by frames of smaller weight.
\<close>

lemma nodes_update_node_outgoing:
  "map (\<lambda>(k, nd). (k, outgoing_edges nd)) (nodes (update_node r (add_dependency c) g))
   = map (\<lambda>(k, nd). (k, outgoing_edges nd)) (nodes g)"
  by (auto simp: update_node_def add_dependency_def)

lemma nodes_add_dependencies_outgoing:
  "map (\<lambda>(k, nd). (k, outgoing_edges nd)) (nodes (add_dependencies p c g))
   = map (\<lambda>(k, nd). (k, outgoing_edges nd)) (nodes g)"
  by (induction p c g rule: add_dependencies.induct) (auto simp: nodes_update_node_outgoing)

lemma universe_alt: "universe g = (\<Union>(k, es) \<in> set (map (\<lambda>(k, nd). (k, outgoing_edges nd)) (nodes g)). to_node ` set es)"
  by (auto simp: universe_def)

lemma universe_add_dependencies: "universe (add_dependencies p c g) = universe g"
  unfolding universe_alt nodes_add_dependencies_outgoing ..

lemma finite_universe: "finite (universe g)"
  by (auto simp: universe_def)

lemma outgoing_of_alt: "outgoing_of g r = (case map_of (map (\<lambda>(k, nd). (k, outgoing_edges nd)) (nodes g)) r of None \<Rightarrow> [] | Some es \<Rightarrow> es)"
  by (induction "nodes g" arbitrary: g) (auto simp: outgoing_of_def get_node_def map_of_map split: option.splits)

lemma outgoing_of_add_dependencies: "outgoing_of (add_dependencies p c g) r = outgoing_of g r"
  unfolding outgoing_of_alt nodes_add_dependencies_outgoing ..

lemma target_in_universe: "e \<in> set (outgoing_of g r) \<Longrightarrow> to_node e \<in> universe g"
proof -
  assume e: "e \<in> set (outgoing_of g r)"
  then obtain nd where nd: "map_of (nodes g) r = Some nd" "e \<in> set (outgoing_edges nd)"
    by (cases "map_of (nodes g) r") (auto simp: outgoing_of_def get_node_def)
  then have "(r, nd) \<in> set (nodes g)" by (simp add: map_of_SomeD)
  with nd show ?thesis unfolding universe_def by blast
qed

lemma push_targets_Some:
  "push_targets cp es st = Some st' \<Longrightarrow>
     st' = rev (map (\<lambda>e. (to_node e, cp)) es) @ st \<and> (\<forall>e \<in> set es. to_node e \<notin> set cp)"
  by (induction cp es st rule: push_targets.induct) (auto split: if_splits)

lemma frame_weight_push:
  assumes "e \<in> set (outgoing_of g c)" "to_node e \<notin> set (p @ [c])"
  shows "frame_weight g (to_node e, p @ [c]) < frame_weight g (c, p)"
proof -
  have "to_node e \<in> universe g - set p - {c}"
    using assms target_in_universe by fastforce
  moreover have "universe g - set (p @ [c]) - {to_node e} = (universe g - set p - {c}) - {to_node e}"
    by auto
  ultimately show ?thesis
    unfolding frame_weight_def fst_conv snd_conv
    by (metis card_Diff1_less finite_Diff finite_universe)
qed

lemma frame_weight_add_dependencies: "frame_weight (add_dependencies p c g) = frame_weight g"
  by (rule ext) (simp add: frame_weight_def universe_add_dependencies)

lemma stack_weight_pop:
  "(stack_weight (add_dependencies p c g) st, stack_weight g (fr # st)) \<in> mult less_than"
proof -
  have "(stack_weight g st + {#}, stack_weight g st + {#frame_weight g fr#}) \<in> mult less_than"
    by (rule one_step_implies_mult) auto
  then show ?thesis
    by (simp add: stack_weight_def frame_weight_add_dependencies)
qed

lemma stack_weight_push:
  assumes "push_targets (p @ [c]) (outgoing_of g c) st = Some st'"
  shows "(stack_weight (add_dependencies q c g) st', stack_weight g ((c, p) # st)) \<in> mult less_than"
proof -
  from push_targets_Some[OF assms]
  have st': "st' = rev (map (\<lambda>e. (to_node e, p @ [c])) (outgoing_of g c)) @ st"
    and fresh: "\<forall>e \<in> set (outgoing_of g c). to_node e \<notin> set (p @ [c])" by auto
  let ?K = "mset (map (frame_weight g) (rev (map (\<lambda>e. (to_node e, p @ [c])) (outgoing_of g c))))"
  have "\<forall>k \<in># ?K. \<exists>j \<in># {#frame_weight g (c, p)#}. (k, j) \<in> less_than"
    using fresh frame_weight_push[of _ g c p] by auto
  then have "(stack_weight g st + ?K, stack_weight g st + {#frame_weight g (c, p)#}) \<in> mult less_than"
    by (intro one_step_implies_mult) auto
  then show ?thesis
    by (simp add: stack_weight_def frame_weight_add_dependencies st' add.commute)
qed

termination dfs_loop
proof (relation "inv_image (mult less_than) (\<lambda>(g, st, ps). stack_weight g st)")
  show "wf (inv_image (mult less_than) (\<lambda>(g, st, ps). stack_weight g st))"
    by (intro wf_inv_image wf_mult wf_less_than)
qed (auto simp: stack_weight_pop stack_weight_push outgoing_of_add_dependencies)

section \<open>Invariants of a graph built through the public operations\<close>

lemma connected_to_node_iff: "connected_to_node e n \<longleftrightarrow> from_node e = n \<or> to_node e = n"
  by (simp add: connected_to_node_def)

lemma edge_eq_iff:
  "edge_eq e e' \<longleftrightarrow> e = e' \<or> (from_node e = to_node e' \<and> to_node e = from_node e')"
  by (cases e; cases e') (auto simp: edge_eq_def)

lemma has_edge_loop_iff: "has_edge_loop es e' \<longleftrightarrow> (\<exists>e \<in> set es. edge_eq e' e)"
  by (induction es) auto

lemma get_node_update_node:
  "get_node (update_node r f g) k = (if k = r then map_option f (get_node g k) else get_node g k)"
proof -
  have "map_of (map (\<lambda>(k, nd). if k = r then (k, f nd) else (k, nd)) xs) k
        = (if k = r then map_option f (map_of xs k) else map_of xs k)" for xs
    by (induction xs) auto
  then show ?thesis by (simp add: get_node_def update_node_def)
qed

lemma keys_update_node [simp]: "keys (update_node r f g) = keys g"
  by (auto simp: keys_def update_node_def)

lemma cache_dirty_update_node [simp]: "cache_dirty (update_node r f g) = cache_dirty g"
  by (simp add: update_node_def)

lemma paths_update_node [simp]: "paths (update_node r f g) = paths g"
  by (simp add: update_node_def)

lemma get_node_Some_keys: "get_node g k = Some nd \<Longrightarrow> k \<in> set (keys g)"
  by (auto simp: get_node_def keys_def dest: map_of_SomeD intro: rev_image_eqI)

lemma get_node_None_keys: "get_node g k = None \<longleftrightarrow> k \<notin> set (keys g)"
  by (simp add: get_node_def keys_def map_of_eq_None_iff)

lemma edges_of_update_node:
  "edges_of (update_node r f g) k
   = (if k = r then (case get_node g k of None \<Rightarrow> [] | Some nd \<Rightarrow> edges (f nd)) else edges_of g k)"
  by (auto simp: edges_of_def get_node_update_node split: option.splits)

lemma update_node_id: "get_node g r = None \<Longrightarrow> update_node r f g = g"
proof -
  assume "get_node g r = None"
  then have "\<forall>x \<in> set (nodes g). fst x \<noteq> r"
    by (auto simp: get_node_None_keys keys_def)
  then have "map (\<lambda>(k, nd). if k = r then (k, f nd) else (k, nd)) (nodes g) = nodes g"
    by (intro map_idI) auto
  then show ?thesis by (simp add: update_node_def)
qed

text \<open>What \<^verbatim>\<open>add_edge\<close> does on a well-formed graph.\<close>

lemma well_formed_sym_has_edge:
  assumes wf: "well_formed g" and a: "get_node g a = Some na" and b: "get_node g b = Some nb"
  shows "has_edge nb (Edge a b) \<longleftrightarrow> has_edge na (Edge a b)"
proof -
  have "\<exists>e' \<in> set (edges ny). edge_eq (Edge a b) e'"
    if "get_node g x = Some nx" "get_node g y = Some ny" "{x, y} = {a, b}"
       "e \<in> set (edges nx)" "edge_eq (Edge a b) e" for x y nx ny e
  proof -
    from wf that(1,4) have "e \<in> set (edges_of g (from_node e))" "e \<in> set (edges_of g (to_node e))"
      "connected_to_node e x"
      unfolding well_formed_def by blast+
    moreover from that(5) have "from_node e = a \<and> to_node e = b \<or> from_node e = b \<and> to_node e = a"
      by (auto simp: edge_eq_def split: if_splits)
    ultimately have "e \<in> set (edges_of g y)"
      using that(3) by (auto simp: doubleton_eq_iff)
    with that(2,5) show ?thesis by (auto simp: edges_of_def)
  qed
  from this[OF a b] this[OF b a] show ?thesis
    unfolding has_edge_def has_edge_loop_iff by (metis insert_commute)
qed

lemma add_edge_well_formed_cases:
  assumes wf: "well_formed g"
  shows "(a = b \<and> add_edge g a b = (Inl SelfLoop, g))
       \<or> (a \<noteq> b \<and> (get_node g a = None \<or> get_node g b = None) \<and> add_edge g a b = (Inl UnknownNode, g))
       \<or> (\<exists>na nb. a \<noteq> b \<and> get_node g a = Some na \<and> get_node g b = Some nb
             \<and> has_edge na (Edge a b) \<and> add_edge g a b = (Inl DuplicateRelation, g))
       \<or> (\<exists>na nb. a \<noteq> b \<and> get_node g a = Some na \<and> get_node g b = Some nb
             \<and> \<not> has_edge na (Edge a b) \<and> \<not> has_edge nb (Edge a b)
             \<and> add_edge g a b = (Inr (),
                  update_node b (\<lambda>_. nb\<lparr>edges := edges nb @ [Edge a b],
                                        incoming_edges := incoming_edges nb @ [Edge a b]\<rparr>)
                   (update_node a (\<lambda>_. na\<lparr>edges := edges na @ [Edge a b],
                                        outgoing_edges := outgoing_edges na @ [Edge a b]\<rparr>) g)))"
proof (cases "a = b")
  case True
  then show ?thesis by (simp add: add_edge_def)
next
  case ne: False
  show ?thesis
  proof (cases "get_node g a")
    case None
    with ne show ?thesis by (simp add: add_edge_def)
  next
    case (Some na)
    note a = this
    show ?thesis
    proof (cases "get_node g b")
      case None
      with ne a show ?thesis by (simp add: add_edge_def)
    next
      case (Some nb)
      note b = this
      from wf a b have names: "name na = a" "name nb = b"
        unfolding well_formed_def by blast+
      show ?thesis
      proof (cases "has_edge na (Edge a b)")
        case True
        with ne a b names show ?thesis
          by (simp add: add_edge_def node_add_edge_def)
      next
        case False
        with well_formed_sym_has_edge[OF wf a b] have "\<not> has_edge nb (Edge a b)" by simp
        with False ne a b names show ?thesis
          by (simp add: add_edge_def node_add_edge_def Let_def)
      qed
    qed
  qed
qed

lemma well_formed_add_edge: 
  assumes wf: "well_formed g"
  shows "well_formed (snd (add_edge g a b))"
proof -
  from add_edge_well_formed_cases[OF wf, of a b]
  consider (fail) "snd (add_edge g a b) = g"
    | (ok) na nb where "a \<noteq> b" "get_node g a = Some na" "get_node g b = Some nb"
        "snd (add_edge g a b) =
           update_node b (\<lambda>_. nb\<lparr>edges := edges nb @ [Edge a b],
                                  incoming_edges := incoming_edges nb @ [Edge a b]\<rparr>)
            (update_node a (\<lambda>_. na\<lparr>edges := edges na @ [Edge a b],
                                  outgoing_edges := outgoing_edges na @ [Edge a b]\<rparr>) g)"
    by fastforce
  then show ?thesis
  proof cases
    case fail
    with wf show ?thesis by simp
  next
    case ok
    define na' where "na' = na\<lparr>edges := edges na @ [Edge a b], outgoing_edges := outgoing_edges na @ [Edge a b]\<rparr>"
    define nb' where "nb' = nb\<lparr>edges := edges nb @ [Edge a b], incoming_edges := incoming_edges nb @ [Edge a b]\<rparr>"
    define g' where "g' = update_node b (\<lambda>_. nb') (update_node a (\<lambda>_. na') g)"
    have get: "get_node g' k = (if k = b then Some nb' else if k = a then Some na' else get_node g k)" for k
      using ok(1-3) by (simp add: get_node_update_node g'_def)
    have eo: "set (edges_of g' k) = set (edges_of g k) \<union> (if k = a \<or> k = b then {Edge a b} else {})" for k
      using ok(1-3) by (auto simp: edges_of_def get na'_def nb'_def)
    have kc: "keys g' = keys g" "cache_dirty g' = cache_dirty g"
      by (simp_all add: g'_def)
    from wf ok(2) have A: "name na = a"
      "outgoing_edges na = filter (\<lambda>e. from_node e = a) (edges na)"
      "incoming_edges na = filter (\<lambda>e. from_node e \<noteq> a) (edges na)"
      "\<forall>e \<in> set (edges na). connected_to_node e a \<and> from_node e \<noteq> to_node e \<and>
           e \<in> set (edges_of g (from_node e)) \<and> e \<in> set (edges_of g (to_node e))"
      unfolding well_formed_def by blast+
    from wf ok(3) have B: "name nb = b"
      "outgoing_edges nb = filter (\<lambda>e. from_node e = b) (edges nb)"
      "incoming_edges nb = filter (\<lambda>e. from_node e \<noteq> b) (edges nb)"
      "\<forall>e \<in> set (edges nb). connected_to_node e b \<and> from_node e \<noteq> to_node e \<and>
           e \<in> set (edges_of g (from_node e)) \<and> e \<in> set (edges_of g (to_node e))"
      unfolding well_formed_def by blast+
    have "well_formed g'"
      unfolding well_formed_def
    proof (intro conjI allI impI)
      show "distinct (keys g')" using wf by (simp add: well_formed_def kc)
      show "cache_dirty g'" using wf by (simp add: well_formed_def kc)
    next
      fix k nd assume g: "get_node g' k = Some nd"
      consider "k = b" "nd = nb'" | "k = a" "k \<noteq> b" "nd = na'" | "k \<noteq> a" "k \<noteq> b" "get_node g k = Some nd"
        using g unfolding get by (auto split: if_splits)
      then have "name nd = k \<and>
        outgoing_edges nd = filter (\<lambda>e. from_node e = k) (edges nd) \<and>
        incoming_edges nd = filter (\<lambda>e. from_node e \<noteq> k) (edges nd) \<and>
        (\<forall>e \<in> set (edges nd).
           connected_to_node e k \<and> from_node e \<noteq> to_node e \<and>
           e \<in> set (edges_of g' (from_node e)) \<and> e \<in> set (edges_of g' (to_node e)))"
      proof cases
        case 1
        with B ok(1) show ?thesis by (auto simp: eo connected_to_node_iff nb'_def)
      next
        case 2
        with A ok(1) show ?thesis by (auto simp: eo connected_to_node_iff na'_def)
      next
        case 3
        with wf have "name nd = k"
          "outgoing_edges nd = filter (\<lambda>e. from_node e = k) (edges nd)"
          "incoming_edges nd = filter (\<lambda>e. from_node e \<noteq> k) (edges nd)"
          "\<forall>e \<in> set (edges nd). connected_to_node e k \<and> from_node e \<noteq> to_node e \<and>
           e \<in> set (edges_of g (from_node e)) \<and> e \<in> set (edges_of g (to_node e))"
          unfolding well_formed_def by blast+
        then show ?thesis by (auto simp: eo)
      qed
      then show "name nd = k"
        "outgoing_edges nd = filter (\<lambda>e. from_node e = k) (edges nd)"
        "incoming_edges nd = filter (\<lambda>e. from_node e \<noteq> k) (edges nd)"
        "\<forall>e \<in> set (edges nd).
           connected_to_node e k \<and> from_node e \<noteq> to_node e \<and>
           e \<in> set (edges_of g' (from_node e)) \<and> e \<in> set (edges_of g' (to_node e))"
        by blast+
    qed
    with ok(4) show ?thesis by (simp add: g'_def na'_def nb'_def)
  qed
qed

lemma get_node_append:
  "get_node (g\<lparr>nodes := nodes g @ [(nm, nd)]\<rparr>) k
   = (case get_node g k of Some x \<Rightarrow> Some x | None \<Rightarrow> if k = nm then Some nd else None)"
  by (auto simp: get_node_def map_add_def split: option.splits)

lemma well_formed_add_node:
  assumes wf: "well_formed g"
  shows "well_formed (snd (add_node g (Node nm d)))"
proof (cases "get_node g nm")
  case (Some x)
  with wf show ?thesis by (simp add: add_node_def Node_def)
next
  case None
  define g' where "g' = g\<lparr>nodes := nodes g @ [(nm, Node nm d)]\<rparr>"
  have res: "snd (add_node g (Node nm d)) = g'"
    using None by (simp add: add_node_def Node_def g'_def)
  have get: "get_node g' k = (if k = nm then Some (Node nm d) else get_node g k)" for k
    using None by (auto simp: get_node_append g'_def split: option.splits)
  have eo: "edges_of g' k = edges_of g k" for k
    using None by (auto simp: edges_of_def get Node_def)
  have kc: "keys g' = keys g @ [nm]" "cache_dirty g' = cache_dirty g"
    by (simp_all add: g'_def keys_def)
  have "well_formed g'"
    unfolding well_formed_def
  proof (intro conjI allI impI)
    show "distinct (keys g')"
      using wf None by (auto simp: well_formed_def kc get_node_None_keys)
    show "cache_dirty g'" using wf by (simp add: well_formed_def kc)
  next
    fix k nd assume g: "get_node g' k = Some nd"
    have "name nd = k \<and>
        outgoing_edges nd = filter (\<lambda>e. from_node e = k) (edges nd) \<and>
        incoming_edges nd = filter (\<lambda>e. from_node e \<noteq> k) (edges nd) \<and>
        (\<forall>e \<in> set (edges nd).
           connected_to_node e k \<and> from_node e \<noteq> to_node e \<and>
           e \<in> set (edges_of g' (from_node e)) \<and> e \<in> set (edges_of g' (to_node e)))"
    proof (cases "k = nm")
      case True
      with g have "nd = Node nm d" by (simp add: get)
      then show ?thesis using True by (simp add: Node_def)
    next
      case False
      with g have "get_node g k = Some nd" by (simp add: get)
      with wf show ?thesis unfolding well_formed_def eo by blast
    qed
    then show "name nd = k"
        "outgoing_edges nd = filter (\<lambda>e. from_node e = k) (edges nd)"
        "incoming_edges nd = filter (\<lambda>e. from_node e \<noteq> k) (edges nd)"
        "\<forall>e \<in> set (edges nd).
           connected_to_node e k \<and> from_node e \<noteq> to_node e \<and>
           e \<in> set (edges_of g' (from_node e)) \<and> e \<in> set (edges_of g' (to_node e))"
      by blast+
  qed
  with res show ?thesis by simp
qed

lemma well_formed_DirectedGraph: "well_formed DirectedGraph"
  by (simp add: well_formed_def DirectedGraph_def keys_def get_node_def)

lemma same_structure_refl [simp]: "same_structure g g"
  by (simp add: same_structure_def)

lemma same_structure_trans: "same_structure g g' \<Longrightarrow> same_structure g' g'' \<Longrightarrow> same_structure g g''"
  by (simp add: same_structure_def)

lemma same_structure_sym: "same_structure g g' \<Longrightarrow> same_structure g' g"
  by (simp add: same_structure_def)

lemma same_structure_paths [simp]: "same_structure g (g'\<lparr>paths := ps\<rparr>) = same_structure g g'"
  by (simp add: same_structure_def skeleton_def)

lemma same_structure_keys: "same_structure g g' \<Longrightarrow> keys g' = keys g"
proof -
  assume "same_structure g g'"
  then have "map fst (skeleton g') = map fst (skeleton g)" by (simp add: same_structure_def)
  then show ?thesis by (simp add: skeleton_def keys_def case_prod_unfold comp_def)
qed

lemma map_of_skeleton:
  "map_of (skeleton h) k = map_option (\<lambda>nd. nd\<lparr>p_depends_on := {}\<rparr>) (get_node h k)"
  by (simp add: skeleton_def get_node_def map_of_map)

lemma same_structure_get_node:
  assumes "same_structure g g'"
  shows "map_option (\<lambda>nd. nd\<lparr>p_depends_on := {}\<rparr>) (get_node g' k)
       = map_option (\<lambda>nd. nd\<lparr>p_depends_on := {}\<rparr>) (get_node g k)"
  using assms map_of_skeleton[of g k] map_of_skeleton[of g' k] by (simp add: same_structure_def)

lemma same_structure_node:
  assumes "same_structure g g'" "get_node g' k = Some nd'"
  shows "\<exists>nd. get_node g k = Some nd \<and> edges nd' = edges nd \<and>
    outgoing_edges nd' = outgoing_edges nd \<and> incoming_edges nd' = incoming_edges nd \<and>
    name nd' = name nd \<and> data nd' = data nd"
proof -
  from same_structure_get_node[OF assms(1), of k] assms(2)
  obtain nd where nd: "get_node g k = Some nd" "nd\<lparr>p_depends_on := {}\<rparr> = nd'\<lparr>p_depends_on := {}\<rparr>"
    by (cases "get_node g k") auto
  from nd(2) have "edges nd' = edges nd \<and>
    outgoing_edges nd' = outgoing_edges nd \<and> incoming_edges nd' = incoming_edges nd \<and>
    name nd' = name nd \<and> data nd' = data nd"
    by (cases nd; cases nd'; simp)
  with nd(1) show ?thesis by blast
qed

lemma same_structure_edges_of:
  assumes "same_structure g g'"
  shows "edges_of g' k = edges_of g k"
proof (cases "get_node g' k")
  case None
  with same_structure_get_node[OF assms, of k] have "get_node g k = None" by simp
  with None show ?thesis by (simp add: edges_of_def)
next
  case (Some nd')
  from same_structure_node[OF assms Some] obtain nd where
    "get_node g k = Some nd" "edges nd' = edges nd" by blast
  with Some show ?thesis by (simp add: edges_of_def)
qed

lemma same_structure_outgoing_of:
  assumes "same_structure g g'"
  shows "outgoing_of g' k = outgoing_of g k"
proof (cases "get_node g' k")
  case None
  with same_structure_get_node[OF assms, of k] have "get_node g k = None" by simp
  with None show ?thesis by (simp add: outgoing_of_def)
next
  case (Some nd')
  from same_structure_node[OF assms Some] obtain nd where
    "get_node g k = Some nd" "outgoing_edges nd' = outgoing_edges nd" by blast
  with Some show ?thesis by (simp add: outgoing_of_def)
qed

lemma same_structure_graph_edges: "same_structure g g' \<Longrightarrow> graph_edges g' = graph_edges g"
proof -
  assume "same_structure g g'"
  then have "map (\<lambda>(k, nd). outgoing_edges nd) (skeleton g') = map (\<lambda>(k, nd). outgoing_edges nd) (skeleton g)"
    by (simp add: same_structure_def)
  then show ?thesis
    by (simp add: skeleton_def graph_edges_def case_prod_unfold comp_def)
qed

lemma same_structure_edge_rel: "same_structure g g' \<Longrightarrow> edge_rel g' = edge_rel g"
  by (simp add: edge_rel_def same_structure_graph_edges)

lemma same_structure_well_formed:
  assumes "same_structure g g'" "well_formed g"
  shows "well_formed g'"
  unfolding well_formed_def
proof (intro conjI allI impI)
  show "distinct (keys g')" "cache_dirty g'"
    using assms by (simp_all add: same_structure_keys[OF assms(1)] well_formed_def same_structure_def)
next
  fix k nd' assume "get_node g' k = Some nd'"
  from same_structure_node[OF assms(1) this] obtain nd where nd: "get_node g k = Some nd"
    and eq: "edges nd' = edges nd" "outgoing_edges nd' = outgoing_edges nd"
      "incoming_edges nd' = incoming_edges nd" "name nd' = name nd"
    by blast
  have eo: "edges_of g' = edges_of g"
    using same_structure_edges_of[OF assms(1)] by (rule ext)
  from assms(2) nd have "name nd = k"
        "outgoing_edges nd = filter (\<lambda>e. from_node e = k) (edges nd)"
        "incoming_edges nd = filter (\<lambda>e. from_node e \<noteq> k) (edges nd)"
        "\<forall>e \<in> set (edges nd).
           connected_to_node e k \<and> from_node e \<noteq> to_node e \<and>
           e \<in> set (edges_of g (from_node e)) \<and> e \<in> set (edges_of g (to_node e))"
    unfolding well_formed_def by blast+
  then show "name nd' = k"
        "outgoing_edges nd' = filter (\<lambda>e. from_node e = k) (edges nd')"
        "incoming_edges nd' = filter (\<lambda>e. from_node e \<noteq> k) (edges nd')"
        "\<forall>e \<in> set (edges nd').
           connected_to_node e k \<and> from_node e \<noteq> to_node e \<and>
           e \<in> set (edges_of g' (from_node e)) \<and> e \<in> set (edges_of g' (to_node e))"
    unfolding eq eo by blast+
qed

lemma same_structure_add_dependency: "same_structure g (update_node r (add_dependency c) g)"
  by (simp add: same_structure_def skeleton_def update_node_def add_dependency_def case_prod_unfold)

lemma same_structure_add_dependencies: "same_structure g (add_dependencies p c g)"
proof (induction p c g rule: add_dependencies.induct)
  case (2 prev_node rest current_node g)
  show ?case
  proof (cases "prev_node = current_node")
    case True
    with 2 show ?thesis by simp
  next
    case False
    with 2 have "same_structure (update_node prev_node (add_dependency current_node) g)
       (add_dependencies (prev_node # rest) current_node g)" by simp
    with same_structure_add_dependency[of g prev_node current_node] show ?thesis
      by (rule same_structure_trans)
  qed
qed simp

lemma same_structure_dfs_loop: "same_structure g (snd (dfs_loop g st ps))"
proof (induction g st ps rule: dfs_loop.induct)
  case (1 g ps)
  then show ?case by simp
next
  case (2 g current_node path0 node_stack ps)
  let ?g1 = "add_dependencies (path0 @ [current_node]) current_node g"
  have g1: "same_structure g ?g1" by (rule same_structure_add_dependencies)
  show ?case
  proof (cases "length (outgoing_of ?g1 current_node) = 0")
    case True
    with "2.IH"(1)[OF refl refl] g1 show ?thesis
      by (auto simp: Let_def intro: same_structure_trans)
  next
    case False
    show ?thesis
    proof (cases "push_targets (path0 @ [current_node]) (outgoing_of ?g1 current_node) node_stack")
      case None
      with False g1 show ?thesis by (simp add: Let_def)
    next
      case (Some st')
      with "2.IH"(3)[OF refl refl False Some] False g1 show ?thesis
        by (auto simp: Let_def intro: same_structure_trans)
    qed
  qed
qed

lemma same_structure_explore_roots: "same_structure g (snd (explore_roots g rs ps))"
proof (induction g rs ps rule: explore_roots.induct)
  case (2 g node root_nodes ps)
  have d: "same_structure g (snd (dfs_loop g [(node, [])] ps))" by (rule same_structure_dfs_loop)
  show ?case
  proof (cases "dfs_loop g [(node, [])] ps")
    case (Pair r g1)
    with d "2.IH" show ?thesis
      by (cases r) (auto intro: same_structure_trans)
  qed
qed simp

lemma same_structure_find_paths_dump:
  "same_structure g (fst (snd (find_paths lim g)))"
  "same_structure g (fst (snd (dump lim g)))"
proof (induction lim g and lim g rule: find_paths_dump.induct)
  case (1 g)
  then show ?case by simp
next
  case (2 lim g)
  show ?case
  proof (cases "cache_dirty g")
    case False
    then show ?thesis by simp
  next
    case dirty: True
    show ?thesis
    proof (cases "root_nodes_loop (nodes g) []")
      case (Inl err)
      with dirty show ?thesis by simp
    next
      case (Inr root_nodes)
      have e: "same_structure g (snd (explore_roots g root_nodes []))"
        by (rule same_structure_explore_roots)
      show ?thesis
      proof (cases "explore_roots g root_nodes []")
        case (Pair r g1)
        show ?thesis
        proof (cases r)
          case None
          from "2.IH"[OF _ Inr Pair[symmetric] None] dirty
          have "same_structure g1 (fst (snd (dump lim g1)))" by simp
          with e Pair None dirty Inr show ?thesis
            by (auto split: prod.splits sum.splits intro: same_structure_trans)
        next
          case (Some ps)
          with e Pair dirty Inr show ?thesis by simp
        qed
      qed
    qed
  qed
next
  case (3 g)
  then show ?case by simp
next
  case (4 lim g)
  then show ?case by (auto split: prod.splits sum.splits)
qed

lemma same_structure_create_plan: "same_structure g (fst (snd (create_plan lim g)))"
  using same_structure_find_paths_dump(1)[of g lim]
  by (auto simp: create_plan_def Let_def split: prod.splits sum.splits)

lemma well_formed_call_state: "well_formed g \<Longrightarrow> well_formed (call_state lim g c)"
  by (cases c)
     (auto intro: well_formed_add_node well_formed_add_edge
        same_structure_well_formed[OF same_structure_find_paths_dump(1)]
        same_structure_well_formed[OF same_structure_find_paths_dump(2)]
        same_structure_well_formed[OF same_structure_create_plan])

lemma well_formed_foldl: "well_formed g \<Longrightarrow> well_formed (foldl (call_state lim) g calls)"
  by (induction calls arbitrary: g) (auto intro: well_formed_call_state)

lemma well_formed_run: "well_formed (run lim calls)"
  unfolding run_def by (rule well_formed_foldl[OF well_formed_DirectedGraph])

section \<open>Claims about add\_edge\<close>

text \<open>
  Claim C8.  After \<^verbatim>\<open>add_edge(a, b)\<close> has succeeded on a graph built through the public
  operations, a second \<^verbatim>\<open>add_edge(a, b)\<close> and \<^verbatim>\<open>add_edge(b, a)\<close> both fail with the
  duplicate-relation error.
\<close>

theorem add_edge_twice_is_duplicate:
  assumes "add_edge (run lim calls) a b = (Inr u, g')"
  shows "fst (add_edge g' a b) = Inl DuplicateRelation \<and>
         fst (add_edge g' b a) = Inl DuplicateRelation"
proof -
  let ?g = "run lim calls"
  have wf: "well_formed ?g" by (rule well_formed_run)
  have wf': "well_formed g'"
    using well_formed_add_edge[OF wf, of a b] assms by simp
  from add_edge_well_formed_cases[OF wf, of a b] assms
  obtain na nb where ne: "a \<noteq> b" and a: "get_node ?g a = Some na" and b: "get_node ?g b = Some nb"
    and g': "g' = update_node b (\<lambda>_. nb\<lparr>edges := edges nb @ [Edge a b],
                                        incoming_edges := incoming_edges nb @ [Edge a b]\<rparr>)
                   (update_node a (\<lambda>_. na\<lparr>edges := edges na @ [Edge a b],
                                        outgoing_edges := outgoing_edges na @ [Edge a b]\<rparr>) ?g)"
    by auto
  define na' where "na' = na\<lparr>edges := edges na @ [Edge a b], outgoing_edges := outgoing_edges na @ [Edge a b]\<rparr>"
  define nb' where "nb' = nb\<lparr>edges := edges nb @ [Edge a b], incoming_edges := incoming_edges nb @ [Edge a b]\<rparr>"
  have ga: "get_node g' a = Some na'" and gb: "get_node g' b = Some nb'"
    using ne a b by (simp_all add: g' get_node_update_node na'_def nb'_def)
  have ha: "has_edge na' (Edge a b)"
    by (auto simp: has_edge_def has_edge_loop_iff na'_def edge_eq_iff)
  have hb: "has_edge nb' (Edge b a)"
    by (auto simp: has_edge_def has_edge_loop_iff nb'_def edge_eq_iff)
  from add_edge_well_formed_cases[OF wf', of a b] ne ga gb ha
  have 1: "fst (add_edge g' a b) = Inl DuplicateRelation" by auto
  from add_edge_well_formed_cases[OF wf', of b a] ne ga gb hb
  have 2: "fst (add_edge g' b a) = Inl DuplicateRelation" by auto
  from 1 2 show ?thesis ..
qed

theorem add_edge_twice_is_duplicate_witness:
  "add_edge (run 1 [Add_node ''a'' (), Add_node ''b'' ()]) ''a'' ''b''
     = (Inr (), run 1 [Add_node ''a'' (), Add_node ''b'' (), Add_edge ''a'' ''b''])
   \<and> fst (add_edge (run 1 [Add_node ''a'' (), Add_node ''b'' (), Add_edge ''a'' ''b'']) ''a'' ''b'')
       = Inl DuplicateRelation
   \<and> fst (add_edge (run 1 [Add_node ''a'' (), Add_node ''b'' (), Add_edge ''a'' ''b'']) ''b'' ''a'')
       = Inl DuplicateRelation"
proof -
  have h: "add_edge (run 1 [Add_node ''a'' (), Add_node ''b'' ()]) ''a'' ''b''
     = (Inr (), run 1 [Add_node ''a'' (), Add_node ''b'' (), Add_edge ''a'' ''b''])"
    by code_simp
  from add_edge_twice_is_duplicate[OF h] h show ?thesis by blast
qed

text \<open>
  Claim C9.  In every graph reached through the public operations the edges are recorded
  on both sides: an edge between the nodes \<open>a\<close> and \<open>b\<close> stands in the edge list of \<open>a\<close> if
  and only if it stands in the edge list of \<open>b\<close>.
\<close>

theorem edges_recorded_symmetrically:
  assumes "get_node (run lim calls) a = Some na" "get_node (run lim calls) b = Some nb"
    and "e = Edge a b \<or> e = Edge b a"
  shows "e \<in> set (edges na) \<longleftrightarrow> e \<in> set (edges nb)"
proof -
  have wf: "well_formed (run lim calls)" by (rule well_formed_run)
  have "e \<in> set (edges ny)"
    if "get_node (run lim calls) x = Some nx" "get_node (run lim calls) y = Some ny"
       "e \<in> set (edges nx)" "from_node e = y \<or> to_node e = y" for x y nx ny
  proof -
    from wf that(1,3) have "e \<in> set (edges_of (run lim calls) (from_node e))"
      "e \<in> set (edges_of (run lim calls) (to_node e))"
      unfolding well_formed_def by blast+
    with that(4) have "e \<in> set (edges_of (run lim calls) y)" by auto
    with that(2) show ?thesis by (simp add: edges_of_def)
  qed
  from this[OF assms(1,2)] this[OF assms(2,1)] assms(3) show ?thesis by auto
qed

theorem edges_recorded_symmetrically_witness:
  "get_node (run 1 [Add_node ''a'' (), Add_node ''b'' (), Add_edge ''a'' ''b'']) ''a''
     = Some \<lparr>edges = [Edge ''a'' ''b''], outgoing_edges = [Edge ''a'' ''b''], incoming_edges = [],
             p_depends_on = {}, name = ''a'', data = ()\<rparr>
   \<and> get_node (run 1 [Add_node ''a'' (), Add_node ''b'' (), Add_edge ''a'' ''b'']) ''b''
     = Some \<lparr>edges = [Edge ''a'' ''b''], outgoing_edges = [], incoming_edges = [Edge ''a'' ''b''],
             p_depends_on = {}, name = ''b'', data = ()\<rparr>
   \<and> (Edge ''a'' ''b'' \<in> set (edges \<lparr>edges = [Edge ''a'' ''b''], outgoing_edges = [Edge ''a'' ''b''],
             incoming_edges = [], p_depends_on = {}, name = ''a'', data = ()\<rparr>)
       \<longleftrightarrow> Edge ''a'' ''b'' \<in> set (edges \<lparr>edges = [Edge ''a'' ''b''], outgoing_edges = [],
             incoming_edges = [Edge ''a'' ''b''], p_depends_on = {}, name = ''b'', data = ()\<rparr>))"
proof -
  have ha: "get_node (run 1 [Add_node ''a'' (), Add_node ''b'' (), Add_edge ''a'' ''b'']) ''a''
     = Some \<lparr>edges = [Edge ''a'' ''b''], outgoing_edges = [Edge ''a'' ''b''], incoming_edges = [],
             p_depends_on = {}, name = ''a'', data = ()\<rparr>"
    by code_simp
  have hb: "get_node (run 1 [Add_node ''a'' (), Add_node ''b'' (), Add_edge ''a'' ''b'']) ''b''
     = Some \<lparr>edges = [Edge ''a'' ''b''], outgoing_edges = [], incoming_edges = [Edge ''a'' ''b''],
             p_depends_on = {}, name = ''b'', data = ()\<rparr>"
    by code_simp
  have he: "Edge ''a'' ''b'' = Edge ''a'' ''b'' \<or> Edge ''a'' ''b'' = Edge ''b'' ''a''" by simp
  from edges_recorded_symmetrically[OF ha hb he] ha hb show ?thesis by blast
qed

text \<open>
  Claim C10.  \<^verbatim>\<open>add_edge\<close> on a graph reached through the public operations is atomic
  on failure: when it fails, it fails with the self-loop, the unknown-node or the
  duplicate-relation error, and the graph it leaves is the graph it was given.
\<close>

theorem add_edge_failure_atomic:
  assumes "fst (add_edge (run lim calls) a b) = Inl err"
  shows "snd (add_edge (run lim calls) a b) = run lim calls \<and>
         (err = SelfLoop \<or> err = UnknownNode \<or> err = DuplicateRelation)"
  using add_edge_well_formed_cases[OF well_formed_run, of a b lim calls] assms
  by auto

theorem add_edge_failure_atomic_witness:
  "fst (add_edge (run 1 [Add_node ''a'' (), Add_node ''b'' (), Add_edge ''a'' ''b'']) ''b'' ''a'')
     = Inl DuplicateRelation
   \<and> snd (add_edge (run 1 [Add_node ''a'' (), Add_node ''b'' (), Add_edge ''a'' ''b'']) ''b'' ''a'')
     = run 1 [Add_node ''a'' (), Add_node ''b'' (), Add_edge ''a'' ''b'']"
proof -
  have h: "fst (add_edge (run 1 [Add_node ''a'' (), Add_node ''b'' (), Add_edge ''a'' ''b'']) ''b'' ''a'')
     = Inl DuplicateRelation"
    by code_simp
  from add_edge_failure_atomic[OF h] h show ?thesis by blast
qed

section \<open>The memo of find\_paths\<close>

text \<open>
  Claim C7.  \<^verbatim>\<open>find_paths\<close> never answers from a stale memo: in every graph reached
  through the public operations the flag \<^verbatim>\<open>_cache_dirty\<close> is set, and \<^verbatim>\<open>find_paths\<close>
  returns paths exactly when a fresh traversal of the current graph returns them, and then
  the same ones.
\<close>

theorem find_paths_never_stale:
  "cache_dirty (run l calls) \<and>
   (fst (find_paths (Suc lim) (run l calls)) = Inr ps \<longleftrightarrow> fresh_traversal (run l calls) = Some ps)"
proof -
  have d: "cache_dirty (run l calls)"
    using well_formed_run[of l calls] by (simp add: well_formed_def)
  show ?thesis
  proof (cases "root_nodes_loop (nodes (run l calls)) []")
    case (Inl err)
    with d show ?thesis by (simp add: fresh_traversal_def)
  next
    case (Inr root_nodes)
    obtain r g1 where e: "explore_roots (run l calls) root_nodes [] = (r, g1)"
      by (cases "explore_roots (run l calls) root_nodes []")
    show ?thesis
    proof (cases r)
      case None
      with d Inr e show ?thesis
        by (auto simp: fresh_traversal_def split: prod.splits sum.splits)
    next
      case (Some qs)
      with d Inr e show ?thesis by (auto simp: fresh_traversal_def)
    qed
  qed
qed

theorem find_paths_never_stale_witness:
  "fresh_traversal (run 1 [Add_node ''a'' (), Add_node ''b'' (), Find_paths, Add_edge ''a'' ''b''])
     = Some [[''a'', ''b'']]
   \<and> paths (run 1 [Add_node ''a'' (), Add_node ''b'' (), Find_paths, Add_edge ''a'' ''b''])
     = [[''a''], [''b'']]
   \<and> fst (find_paths (Suc 0) (run 1 [Add_node ''a'' (), Add_node ''b'' (), Find_paths, Add_edge ''a'' ''b'']))
     = Inr [[''a'', ''b'']]"
proof -
  have h: "fresh_traversal (run 1 [Add_node ''a'' (), Add_node ''b'' (), Find_paths, Add_edge ''a'' ''b''])
     = Some [[''a'', ''b'']]"
    by code_simp
  have p: "paths (run 1 [Add_node ''a'' (), Add_node ''b'' (), Find_paths, Add_edge ''a'' ''b''])
     = [[''a''], [''b'']]"
    by code_simp
  from find_paths_never_stale[of 1 "[Add_node ''a'' (), Add_node ''b'' (), Find_paths, Add_edge ''a'' ''b'']" 0 "[[''a'', ''b'']]"] h p
  show ?thesis by blast
qed

section \<open>The traversal does not depend on the dependency sets\<close>

lemma root_nodes_loop_skeleton:
  "root_nodes_loop (map (\<lambda>(k, nd). (k, nd\<lparr>p_depends_on := {}\<rparr>)) xs) acc = root_nodes_loop xs acc"
  by (induction xs acc rule: root_nodes_loop.induct)
     (auto simp: has_incoming_edges_def split: sum.splits)

lemma same_structure_root_nodes_loop:
  "same_structure g g' \<Longrightarrow> root_nodes_loop (nodes g') acc = root_nodes_loop (nodes g) acc"
  using root_nodes_loop_skeleton[of "nodes g" acc] root_nodes_loop_skeleton[of "nodes g'" acc]
  by (simp add: same_structure_def skeleton_def)

lemma same_structure_fst_dfs_loop:
  "same_structure g g' \<Longrightarrow> fst (dfs_loop g' st ps) = fst (dfs_loop g st ps)"
proof (induction g st ps arbitrary: g' rule: dfs_loop.induct)
  case (1 g ps)
  then show ?case by simp
next
  case (2 g current_node path0 node_stack ps)
  let ?cp = "path0 @ [current_node]"
  let ?g1 = "add_dependencies ?cp current_node g"
  let ?g1' = "add_dependencies ?cp current_node g'"
  have s: "same_structure ?g1 ?g1'"
    using same_structure_add_dependencies[of g ?cp current_node]
      same_structure_add_dependencies[of g' ?cp current_node] "2.prems"
    by (meson same_structure_sym same_structure_trans)
  have o: "outgoing_of ?g1' current_node = outgoing_of ?g1 current_node"
    by (rule same_structure_outgoing_of[OF s])
  show ?case
  proof (cases "length (outgoing_of ?g1 current_node) = 0")
    case True
    with "2.IH"(1)[OF refl refl _ _ s] o show ?thesis by (simp add: Let_def)
  next
    case False
    show ?thesis
    proof (cases "push_targets ?cp (outgoing_of ?g1 current_node) node_stack")
      case None
      with False o show ?thesis by (simp add: Let_def)
    next
      case (Some st')
      with "2.IH"(3)[OF refl refl False Some s] False o show ?thesis by (simp add: Let_def)
    qed
  qed
qed

lemma same_structure_fst_explore_roots:
  "same_structure g g' \<Longrightarrow> fst (explore_roots g' rs ps) = fst (explore_roots g rs ps)"
proof (induction g rs ps arbitrary: g' rule: explore_roots.induct)
  case (1 g ps)
  then show ?case by simp
next
  case (2 g node root_nodes ps)
  obtain r g1 where d: "dfs_loop g [(node, [])] ps = (r, g1)"
    by (cases "dfs_loop g [(node, [])] ps")
  obtain r' g1' where d': "dfs_loop g' [(node, [])] ps = (r', g1')"
    by (cases "dfs_loop g' [(node, [])] ps")
  from same_structure_fst_dfs_loop[OF "2.prems", of "[(node, [])]" ps] d d'
  have r: "r' = r" by simp
  have s: "same_structure g1 g1'"
    using same_structure_dfs_loop[of g "[(node, [])]" ps]
      same_structure_dfs_loop[of g' "[(node, [])]" ps] d d' "2.prems"
    by (metis same_structure_sym same_structure_trans snd_conv)
  show ?case
  proof (cases r)
    case None
    with d d' r show ?thesis by simp
  next
    case (Some ps1)
    with "2.IH"[OF d[symmetric] Some s] d d' r show ?thesis by simp
  qed
qed

text \<open>
  Where the exploration finds a target on the current path, \<^verbatim>\<open>find_paths\<close> calls
  \<^verbatim>\<open>dump\<close>, whose first statement calls \<^verbatim>\<open>find_paths\<close> again; the flag is still set
  and the graph has the same edges, so the same happens one call deeper, until the
  interpreter's limit ends the descent.  Nothing is printed.
\<close>

lemma find_paths_cycle_descends:
  assumes "cache_dirty g" "root_nodes_loop (nodes g) [] = Inr rs"
    "fst (explore_roots g rs []) = None"
  shows "fst (find_paths lim g) = Inl RecursionError \<and> snd (snd (find_paths lim g)) = []"
  using assms
proof (induction lim arbitrary: g rule: less_induct)
  case (less lim)
  show ?case
  proof (cases lim)
    case 0
    then show ?thesis by simp
  next
    case (Suc l)
    obtain g1 where e: "explore_roots g rs [] = (None, g1)"
      using less.prems(3) by (cases "explore_roots g rs []") auto
    have s: "same_structure g g1"
      using same_structure_explore_roots[of g rs "[]"] e by simp
    show ?thesis
    proof (cases l)
      case 0
      with Suc less.prems e show ?thesis by simp
    next
      case l: (Suc k)
      have "fst (find_paths k g1) = Inl RecursionError \<and> snd (snd (find_paths k g1)) = []"
      proof (rule less.IH)
        show "k < lim" using Suc l by simp
        show "cache_dirty g1" using s less.prems(1) by (simp add: same_structure_def)
        show "root_nodes_loop (nodes g1) [] = Inr rs"
          using same_structure_root_nodes_loop[OF s] less.prems(2) by simp
        show "fst (explore_roots g1 rs []) = None"
          using same_structure_fst_explore_roots[OF s] less.prems(3) by simp
      qed
      then obtain g2 where "find_paths k g1 = (Inl RecursionError, g2, [])"
        by (cases "find_paths k g1") auto
      with Suc l less.prems e show ?thesis by simp
    qed
  qed
qed

lemma find_paths_success:
  assumes "cache_dirty g" "root_nodes_loop (nodes g) [] = Inr rs"
    "explore_roots g rs [] = (Some ps, g1)"
  shows "find_paths (Suc lim) g = (Inr ps, g1\<lparr>paths := ps\<rparr>, [])"
  using assms by simp

section \<open>Cycles\<close>

lemma rootless_cycle_find_paths:
  "find_paths (Suc lim) rootless_cycle = (Inr [], rootless_cycle\<lparr>paths := []\<rparr>, [])"
proof (rule find_paths_success)
  show "cache_dirty rootless_cycle" by code_simp
  show "root_nodes_loop (nodes rootless_cycle) [] = Inr []" by code_simp
  show "explore_roots rootless_cycle [] [] = (Some [], rootless_cycle)" by simp
qed

lemma rootless_cycle_edges:
  "graph_edges rootless_cycle = [Edge ''a'' ''b'', Edge ''b'' ''c'', Edge ''c'' ''a'']"
  by code_simp

text \<open>
  Claim C2 (not met by the code).  The graph \<open>a \<rightarrow> b \<rightarrow> c \<rightarrow> a\<close> contains a directed cycle,
  yet \<^verbatim>\<open>find_paths\<close> returns the empty list of paths and \<^verbatim>\<open>create_plan\<close> returns the
  ordering \<open>a, b, c\<close>: no node of the graph is a root, so nothing is explored.
\<close>

theorem rootless_cycle_not_detected:
  "(''a'', ''a'') \<in> (edge_rel rootless_cycle)\<^sup>+ \<and>
   fst (find_paths (Suc lim) rootless_cycle) = Inr [] \<and>
   fst (create_plan (Suc lim) rootless_cycle) = Inr [''a'', ''b'', ''c'']"
proof -
  have "edge_rel rootless_cycle = {(''a'', ''b''), (''b'', ''c''), (''c'', ''a'')}"
    by (simp add: edge_rel_def rootless_cycle_edges)
  then have 1: "(''a'', ''a'') \<in> (edge_rel rootless_cycle)\<^sup>+"
    by (metis insertI1 insertI2 trancl.r_into_trancl trancl_trans)
  have 2: "fst (find_paths (Suc lim) rootless_cycle) = Inr []"
    by (simp only: rootless_cycle_find_paths fst_conv)
  have "(let nodes_l = map (\<lambda>(key, nd). name nd) (nodes (rootless_cycle\<lparr>paths := []\<rparr>))
         in plan_loop (rootless_cycle\<lparr>paths := []\<rparr>) nodes_l nodes_l (- 1)) = [''a'', ''b'', ''c'']"
    by code_simp
  then have 3: "fst (create_plan (Suc lim) rootless_cycle) = Inr [''a'', ''b'', ''c'']"
    by (simp only: create_plan_def rootless_cycle_find_paths prod.case sum.case fst_conv Let_def)
  from 1 2 3 show ?thesis by blast
qed

text \<open>
  Claim C3 (not met by the code).  On the graph \<open>a \<rightarrow> b \<rightarrow> c \<rightarrow> a\<close> \<^verbatim>\<open>find_paths\<close> runs to
  completion without detecting a cycle, and afterwards the dependency set of \<open>a\<close> is empty,
  although \<open>b\<close> is reachable from \<open>a\<close>.
\<close>

theorem rootless_cycle_dependencies_empty:
  "fst (find_paths (Suc lim) rootless_cycle) = Inr [] \<and>
   dependencies_of (fst (snd (find_paths (Suc lim) rootless_cycle))) ''a'' = {} \<and>
   (''a'', ''b'') \<in> edge_rel rootless_cycle"
proof -
  have 1: "fst (find_paths (Suc lim) rootless_cycle) = Inr []"
    by (simp only: rootless_cycle_find_paths fst_conv)
  have "dependencies_of (rootless_cycle\<lparr>paths := []\<rparr>) ''a'' = {}"
    by code_simp
  then have 2: "dependencies_of (fst (snd (find_paths (Suc lim) rootless_cycle))) ''a'' = {}"
    by (simp only: rootless_cycle_find_paths fst_conv snd_conv)
  have 3: "(''a'', ''b'') \<in> edge_rel rootless_cycle"
    by (simp add: edge_rel_def rootless_cycle_edges)
  from 1 2 3 show ?thesis by blast
qed

text \<open>
  Claim C4 (not met by the code).  The graph \<open>a \<rightarrow> b \<rightarrow> c \<rightarrow> a\<close> has three nodes, and the
  result of \<^verbatim>\<open>find_paths\<close> is empty.
\<close>

theorem rootless_cycle_no_paths:
  "keys rootless_cycle = [''a'', ''b'', ''c''] \<and>
   fst (find_paths (Suc lim) rootless_cycle) = Inr []"
proof -
  have 1: "keys rootless_cycle = [''a'', ''b'', ''c'']" by code_simp
  have 2: "fst (find_paths (Suc lim) rootless_cycle) = Inr []"
    by (simp only: rootless_cycle_find_paths fst_conv)
  from 1 2 show ?thesis ..
qed

text \<open>
  Claim C6 (not met by the code).  On the graph \<open>r \<rightarrow> a \<rightarrow> b \<rightarrow> c \<rightarrow> a\<close>, whose cycle is
  reachable from the root \<open>r\<close>, \<^verbatim>\<open>find_paths\<close> fails, whatever the recursion limit, with
  \<^verbatim>\<open>RecursionError\<close> and not with the cycle error, and it has printed nothing.
\<close>

theorem rooted_cycle_recursion_error:
  "fst (find_paths lim rooted_cycle) = Inl RecursionError \<and>
   snd (snd (find_paths lim rooted_cycle)) = []"
proof (rule find_paths_cycle_descends)
  show "cache_dirty rooted_cycle" by code_simp
  show "root_nodes_loop (nodes rooted_cycle) [] = Inr [''r'']" by code_simp
  show "fst (explore_roots rooted_cycle [''r''] []) = None" by code_simp
qed

section \<open>The edge relation of a well-formed graph\<close>

lemma mem_nodes_iff:
  "distinct (keys g) \<Longrightarrow> (k, nd) \<in> set (nodes g) \<longleftrightarrow> get_node g k = Some nd"
  by (simp add: keys_def get_node_def)

lemma outgoing_of_from:
  assumes "well_formed g" "e \<in> set (outgoing_of g u)"
  shows "from_node e = u \<and> e \<in> set (edges_of g u)"
proof -
  from assms(2) obtain nd where nd: "get_node g u = Some nd" "e \<in> set (outgoing_edges nd)"
    by (cases "get_node g u") (auto simp: outgoing_of_def)
  with assms(1) have "outgoing_edges nd = filter (\<lambda>e. from_node e = u) (edges nd)"
    unfolding well_formed_def by blast
  with nd show ?thesis by (auto simp: edges_of_def)
qed

lemma edge_rel_iff:
  assumes "well_formed g"
  shows "(u, v) \<in> edge_rel g \<longleftrightarrow> (\<exists>e \<in> set (outgoing_of g u). to_node e = v)"
proof
  assume "(u, v) \<in> edge_rel g"
  then obtain e k nd where e: "(k, nd) \<in> set (nodes g)" "e \<in> set (outgoing_edges nd)"
    "from_node e = u" "to_node e = v"
    by (auto simp: edge_rel_def graph_edges_def)
  with assms have nd: "get_node g k = Some nd"
    by (simp add: mem_nodes_iff well_formed_def)
  with e(2) have "e \<in> set (outgoing_of g k)" by (simp add: outgoing_of_def)
  with outgoing_of_from[OF assms this] e(3,4) show "\<exists>e \<in> set (outgoing_of g u). to_node e = v"
    by auto
next
  assume "\<exists>e \<in> set (outgoing_of g u). to_node e = v"
  then obtain e where e: "e \<in> set (outgoing_of g u)" "to_node e = v" by blast
  then obtain nd where nd: "get_node g u = Some nd" "e \<in> set (outgoing_edges nd)"
    by (cases "get_node g u") (auto simp: outgoing_of_def)
  with assms have "(u, nd) \<in> set (nodes g)"
    by (simp add: mem_nodes_iff well_formed_def)
  with nd(2) have "e \<in> set (graph_edges g)" by (auto simp: graph_edges_def)
  with outgoing_of_from[OF assms e(1)] e(2) show "(u, v) \<in> edge_rel g"
    by (force simp: edge_rel_def)
qed

lemma graph_edges_iff:
  assumes "well_formed g"
  shows "Edge u v \<in> set (graph_edges g) \<longleftrightarrow> (u, v) \<in> edge_rel g"
proof -
  have "(u, v) \<in> edge_rel g \<longleftrightarrow> (\<exists>e \<in> set (graph_edges g). from_node e = u \<and> to_node e = v)"
    by (auto simp: edge_rel_def)
  also have "\<dots> \<longleftrightarrow> Edge u v \<in> set (graph_edges g)"
    by (metis edge.collapse edge.sel(1) edge.sel(2))
  finally show ?thesis ..
qed

lemma finite_edge_rel: "finite (edge_rel g)"
  by (simp add: edge_rel_def)

lemma edges_of_keys: "e \<in> set (edges_of g k) \<Longrightarrow> k \<in> set (keys g)"
  by (cases "get_node g k") (auto simp: edges_of_def dest: get_node_Some_keys)

lemma edge_rel_keys:
  assumes "well_formed g" "(u, v) \<in> edge_rel g"
  shows "u \<in> set (keys g)" "v \<in> set (keys g)"
proof -
  from assms obtain e where e: "e \<in> set (outgoing_of g u)" "to_node e = v"
    by (auto simp: edge_rel_iff)
  from outgoing_of_from[OF assms(1) e(1)] have eu: "from_node e = u" "e \<in> set (edges_of g u)" by auto
  then show "u \<in> set (keys g)" by (auto dest: edges_of_keys)
  from eu obtain nd where nd: "get_node g u = Some nd" "e \<in> set (edges nd)"
    by (cases "get_node g u") (auto simp: edges_of_def)
  with assms(1) have "e \<in> set (edges_of g (to_node e))" unfolding well_formed_def by blast
  with e(2) show "v \<in> set (keys g)" by (auto dest: edges_of_keys)
qed

lemma trancl_edge_rel_keys:
  assumes "well_formed g" "(u, v) \<in> (edge_rel g)\<^sup>+"
  shows "u \<in> set (keys g)" "v \<in> set (keys g)"
  using assms(2) edge_rel_keys[OF assms(1)]
  by (metis tranclD, metis tranclD2)

text \<open>Incoming edges, as \<^verbatim>\<open>has_incoming_edges\<close> sees them.\<close>

lemma any_incoming_connected:
  "\<forall>e \<in> set es. connected_to_node e k \<Longrightarrow> any_incoming es k = Inr (\<exists>e \<in> set es. to_node e = k)"
  by (induction es) (auto simp: is_incoming_edge_def)

lemma has_incoming_edges_iff:
  assumes "well_formed g" "get_node g k = Some nd"
  shows "has_incoming_edges nd = Inr (\<exists>u. (u, k) \<in> edge_rel g)"
proof -
  from assms have nd: "name nd = k"
    "\<forall>e \<in> set (edges nd). connected_to_node e k \<and> from_node e \<noteq> to_node e \<and>
           e \<in> set (edges_of g (from_node e)) \<and> e \<in> set (edges_of g (to_node e))"
    unfolding well_formed_def by blast+
  have "(\<exists>e \<in> set (edges nd). to_node e = k) \<longleftrightarrow> (\<exists>u. (u, k) \<in> edge_rel g)"
  proof
    assume "\<exists>e \<in> set (edges nd). to_node e = k"
    then obtain e where e: "e \<in> set (edges nd)" "to_node e = k" by blast
    with nd(2) have "e \<in> set (edges_of g (from_node e))" by blast
    then obtain nu where nu: "get_node g (from_node e) = Some nu" "e \<in> set (edges nu)"
      by (cases "get_node g (from_node e)") (auto simp: edges_of_def)
    with assms(1) have "outgoing_edges nu = filter (\<lambda>x. from_node x = from_node e) (edges nu)"
      unfolding well_formed_def by blast
    with nu have "e \<in> set (outgoing_of g (from_node e))" by (simp add: outgoing_of_def)
    with e(2) have "(from_node e, k) \<in> edge_rel g"
      using edge_rel_iff[OF assms(1)] by blast
    then show "\<exists>u. (u, k) \<in> edge_rel g" ..
  next
    assume "\<exists>u. (u, k) \<in> edge_rel g"
    then obtain u e where e: "e \<in> set (outgoing_of g u)" "to_node e = k"
      using edge_rel_iff[OF assms(1)] by blast
    from outgoing_of_from[OF assms(1) e(1)] obtain nu where
      nu: "get_node g u = Some nu" "e \<in> set (edges nu)"
      by (cases "get_node g u") (auto simp: edges_of_def)
    with assms(1) have "e \<in> set (edges_of g (to_node e))" unfolding well_formed_def by blast
    with e(2) assms(2) show "\<exists>e \<in> set (edges nd). to_node e = k"
      by (auto simp: edges_of_def)
  qed
  moreover have "has_incoming_edges nd = Inr (\<exists>e \<in> set (edges nd). to_node e = k)"
    unfolding has_incoming_edges_def nd(1) using nd(2) by (intro any_incoming_connected) blast
  ultimately show ?thesis by simp
qed

lemma root_nodes_loop_filter:
  assumes "\<forall>(k, nd) \<in> set items. name nd = k \<and> has_incoming_edges nd = Inr (P k)"
  shows "root_nodes_loop items acc = Inr (acc @ filter (\<lambda>k. \<not> P k) (map fst items))"
  using assms by (induction items acc rule: root_nodes_loop.induct) auto

lemma root_nodes_loop_well_formed:
  assumes "well_formed g"
  shows "root_nodes_loop (nodes g) [] = Inr (filter (is_root g) (keys g))"
proof -
  have "\<forall>(k, nd) \<in> set (nodes g). name nd = k \<and> has_incoming_edges nd = Inr (\<exists>u. (u, k) \<in> edge_rel g)"
  proof (clarify, rule conjI)
    fix k nd assume "(k, nd) \<in> set (nodes g)"
    with assms have g: "get_node g k = Some nd" by (simp add: mem_nodes_iff well_formed_def)
    with assms show "name nd = k" unfolding well_formed_def by blast
    from has_incoming_edges_iff[OF assms g] show "has_incoming_edges nd = Inr (\<exists>u. (u, k) \<in> edge_rel g)" .
  qed
  from root_nodes_loop_filter[OF this, of "[]"]
  have "root_nodes_loop (nodes g) [] = Inr (filter (\<lambda>k. \<nexists>u. (u, k) \<in> edge_rel g) (keys g))"
    by (simp add: keys_def)
  moreover have "filter (\<lambda>k. \<nexists>u. (u, k) \<in> edge_rel g) (keys g) = filter (is_root g) (keys g)"
    by (rule filter_cong) (auto simp: is_root_def)
  ultimately show ?thesis by simp
qed

text \<open>In an acyclic graph every node is reachable from a root.\<close>

lemma reachable_from_root:
  assumes "well_formed g" "acyclic (edge_rel g)" "k \<in> set (keys g)"
  shows "\<exists>r. is_root g r \<and> (r, k) \<in> (edge_rel g)\<^sup>*"
proof -
  have "wf (edge_rel g)"
    using finite_edge_rel assms(2) by (rule finite_acyclic_wf)
  then show ?thesis using assms(3)
  proof (induction k rule: wf_induct_rule)
    case (less k)
    show ?case
    proof (cases "\<exists>u. (u, k) \<in> edge_rel g")
      case True
      then obtain u where u: "(u, k) \<in> edge_rel g" by blast
      with edge_rel_keys[OF assms(1) u] less.IH[of u]
      obtain r where "is_root g r" "(r, u) \<in> (edge_rel g)\<^sup>*" by blast
      with u show ?thesis by (meson rtrancl.rtrancl_into_rtrancl)
    next
      case False
      with less.prems have "is_root g k" by (simp add: is_root_def)
      then show ?thesis by blast
    qed
  qed
qed

section \<open>What the depth-first exploration records\<close>

lemma dependencies_of_update_node:
  "dependencies_of (update_node r (add_dependency c) g) k
   = (if k = r \<and> k \<in> set (keys g) then insert c (dependencies_of g k) else dependencies_of g k)"
proof (cases "get_node g k")
  case None
  then have "k \<notin> set (keys g)" by (simp add: get_node_None_keys)
  with None show ?thesis by (auto simp: dependencies_of_def get_node_update_node)
next
  case (Some nd)
  then have "k \<in> set (keys g)" by (rule get_node_Some_keys)
  with Some show ?thesis
    by (auto simp: dependencies_of_def get_node_update_node add_dependency_def get_dependencies_def)
qed

lemma dependencies_of_add_dependencies:
  "dependencies_of (add_dependencies p c g) k
   = dependencies_of g k \<union> (if k \<in> set p \<and> k \<noteq> c \<and> k \<in> set (keys g) then {c} else {})"
proof (induction p c g rule: add_dependencies.induct)
  case (1 current_node g)
  then show ?case by simp
next
  case (2 prev_node rest current_node g)
  show ?case
  proof (cases "prev_node = current_node")
    case True
    with 2 show ?thesis by auto
  next
    case False
    let ?g = "update_node prev_node (add_dependency current_node) g"
    from False have "dependencies_of (add_dependencies (prev_node # rest) current_node g) k
      = dependencies_of (add_dependencies rest current_node ?g) k" by simp
    also from 2(2)[OF False] have "\<dots> = dependencies_of ?g k \<union>
      (if k \<in> set rest \<and> k \<noteq> current_node \<and> k \<in> set (keys g) then {current_node} else {})"
      by simp
    also have "dependencies_of ?g k = (if k = prev_node \<and> k \<in> set (keys g)
        then insert current_node (dependencies_of g k) else dependencies_of g k)"
      by (rule dependencies_of_update_node)
    finally show ?thesis using False by (cases "k = prev_node"; cases "k \<in> set rest"; cases "k \<in> set (keys g)"; cases "k = current_node"; simp)
  qed
qed

lemma push_targets_None_iff:
  "push_targets cp es st = None \<longleftrightarrow> (\<exists>e \<in> set es. to_node e \<in> set cp)"
  by (induction cp es st rule: push_targets.induct) auto

lemma path_in_rtrancl: "path_in E (p @ [n]) \<Longrightarrow> x \<in> set (p @ [n]) \<Longrightarrow> (x, n) \<in> E\<^sup>*"
proof (induction p arbitrary: x)
  case Nil
  then show ?case by simp
next
  case (Cons a p)
  from Cons.prems(1) have step: "(a, hd (p @ [n])) \<in> E" and rest: "path_in E (p @ [n])"
    by (auto simp: successively_Cons)
  have "hd (p @ [n]) \<in> set (p @ [n])" by (cases p) auto
  with Cons.IH[OF rest] have "(hd (p @ [n]), n) \<in> E\<^sup>*" by blast
  with step have "(a, n) \<in> E\<^sup>*" by (meson converse_rtrancl_into_rtrancl)
  with Cons.IH[OF rest] Cons.prems(2) show ?case by auto
qed

lemma path_in_trancl: "path_in E (p @ [n]) \<Longrightarrow> x \<in> set p \<Longrightarrow> (x, n) \<in> E\<^sup>+"
proof (induction p arbitrary: x)
  case Nil
  then show ?case by simp
next
  case (Cons a p)
  from Cons.prems(1) have step: "(a, hd (p @ [n])) \<in> E" and rest: "path_in E (p @ [n])"
    by (auto simp: successively_Cons)
  have "hd (p @ [n]) \<in> set (p @ [n])" by (cases p) auto
  with path_in_rtrancl[OF rest] have "(hd (p @ [n]), n) \<in> E\<^sup>*" by blast
  with step have "(a, n) \<in> E\<^sup>+" by (meson rtrancl_into_trancl2)
  with Cons.IH[OF rest] Cons.prems(2) show ?case by auto
qed

lemma path_in_snoc: "path_in E (p @ [n]) \<Longrightarrow> (n, t) \<in> E \<Longrightarrow> path_in E ((p @ [n]) @ [t])"
  by (simp add: successively_append_iff)

text \<open>The dependency sets only grow.\<close>

lemma dfs_loop_mono: "dependencies_of g k \<subseteq> dependencies_of (snd (dfs_loop g st ps)) k"
proof (induction g st ps rule: dfs_loop.induct)
  case (1 g ps)
  then show ?case by simp
next
  case (2 g current_node path0 node_stack ps)
  let ?cp = "path0 @ [current_node]"
  let ?g1 = "add_dependencies ?cp current_node g"
  have g1: "dependencies_of g k \<subseteq> dependencies_of ?g1 k"
    by (auto simp: dependencies_of_add_dependencies)
  show ?case
  proof (cases "length (outgoing_of ?g1 current_node) = 0")
    case True
    with "2.IH"(1)[OF refl refl] g1 show ?thesis by (auto simp: Let_def)
  next
    case False
    show ?thesis
    proof (cases "push_targets ?cp (outgoing_of ?g1 current_node) node_stack")
      case None
      with False g1 show ?thesis by (simp add: Let_def)
    next
      case (Some st')
      with "2.IH"(3)[OF refl refl False Some] False g1 show ?thesis by (auto simp: Let_def)
    qed
  qed
qed

lemma explore_roots_mono: "dependencies_of g k \<subseteq> dependencies_of (snd (explore_roots g rs ps)) k"
proof (induction g rs ps rule: explore_roots.induct)
  case (1 g ps)
  then show ?case by simp
next
  case (2 g node root_nodes ps)
  obtain r g1 where d: "dfs_loop g [(node, [])] ps = (r, g1)"
    by (cases "dfs_loop g [(node, [])] ps")
  with dfs_loop_mono[of g k "[(node, [])]" ps] have m: "dependencies_of g k \<subseteq> dependencies_of g1 k"
    by simp
  show ?case
  proof (cases r)
    case None
    with d m show ?thesis by simp
  next
    case (Some ps1)
    with "2.IH"[OF d[symmetric] Some] d m show ?thesis by auto
  qed
qed

lemma deps_sound_add_dependencies:
  assumes "deps_sound g" "path_in (edge_rel g) (p @ [n])"
  shows "deps_sound (add_dependencies (p @ [n]) n g)"
  unfolding deps_sound_def
proof (intro allI impI)
  fix k m assume "m \<in> dependencies_of (add_dependencies (p @ [n]) n g) k"
  then consider "m \<in> dependencies_of g k" | "m = n" "k \<in> set p" "k \<noteq> n"
    by (auto simp: dependencies_of_add_dependencies split: if_splits)
  then show "(k, m) \<in> (edge_rel (add_dependencies (p @ [n]) n g))\<^sup>+"
  proof cases
    case 1
    with assms(1) show ?thesis
      by (simp add: deps_sound_def same_structure_edge_rel[OF same_structure_add_dependencies])
  next
    case 2
    with path_in_trancl[OF assms(2)] show ?thesis
      by (simp add: same_structure_edge_rel[OF same_structure_add_dependencies])
  qed
qed

lemma pushed_frames_paths:
  assumes "well_formed g" "path_in (edge_rel g) (p @ [n])"
    "push_targets (p @ [n]) (outgoing_of g n) st = Some st'"
    "\<forall>(n, p) \<in> set st. path_in (edge_rel g) (p @ [n])"
  shows "\<forall>(n, p) \<in> set st'. path_in (edge_rel g) (p @ [n])"
proof -
  from push_targets_Some[OF assms(3)]
  have st': "st' = rev (map (\<lambda>e. (to_node e, p @ [n])) (outgoing_of g n)) @ st" by simp
  have "path_in (edge_rel g) ((p @ [n]) @ [to_node e])" if "e \<in> set (outgoing_of g n)" for e
  proof -
    from that have "(n, to_node e) \<in> edge_rel g"
      using edge_rel_iff[OF assms(1)] by blast
    with assms(2) show ?thesis by (rule path_in_snoc)
  qed
  with assms(4) show ?thesis unfolding st' by auto
qed

lemma dfs_loop_sound:
  assumes "well_formed g" "deps_sound g" "\<forall>(n, p) \<in> set st. path_in (edge_rel g) (p @ [n])"
  shows "deps_sound (snd (dfs_loop g st ps))"
  using assms
proof (induction g st ps rule: dfs_loop.induct)
  case (1 g ps)
  then show ?case by simp
next
  case (2 g current_node path0 node_stack ps)
  let ?cp = "path0 @ [current_node]"
  let ?g1 = "add_dependencies ?cp current_node g"
  have s: "same_structure g ?g1" by (rule same_structure_add_dependencies)
  have wf1: "well_formed ?g1" using s "2.prems"(1) by (rule same_structure_well_formed)
  have E1: "edge_rel ?g1 = edge_rel g" by (rule same_structure_edge_rel[OF s])
  have o: "outgoing_of ?g1 current_node = outgoing_of g current_node"
    by (rule outgoing_of_add_dependencies)
  from "2.prems"(3) have cp: "path_in (edge_rel g) ?cp"
    and rest: "\<forall>(n, p) \<in> set node_stack. path_in (edge_rel g) (p @ [n])" by auto
  have ds1: "deps_sound ?g1" using "2.prems"(2) cp by (rule deps_sound_add_dependencies)
  show ?case
  proof (cases "length (outgoing_of ?g1 current_node) = 0")
    case True
    have "deps_sound (snd (dfs_loop ?g1 node_stack (ps @ [?cp])))"
      using "2.IH"(1)[OF refl refl True _ wf1 ds1] rest E1 by simp
    with True show ?thesis by (simp add: Let_def)
  next
    case False
    show ?thesis
    proof (cases "push_targets ?cp (outgoing_of ?g1 current_node) node_stack")
      case None
      with False ds1 show ?thesis by (simp add: Let_def)
    next
      case (Some st')
      from pushed_frames_paths[OF "2.prems"(1) cp _ rest, of st'] Some o
      have "\<forall>(n, p) \<in> set st'. path_in (edge_rel ?g1) (p @ [n])" by (simp add: E1)
      from "2.IH"(3)[OF refl refl False Some wf1 ds1 this]
      show ?thesis using False Some by (simp add: Let_def)
    qed
  qed
qed

lemma explore_roots_sound:
  assumes "well_formed g" "deps_sound g"
  shows "deps_sound (snd (explore_roots g rs ps))"
  using assms
proof (induction g rs ps rule: explore_roots.induct)
  case (1 g ps)
  then show ?case by simp
next
  case (2 g node root_nodes ps)
  obtain r g1 where d: "dfs_loop g [(node, [])] ps = (r, g1)"
    by (cases "dfs_loop g [(node, [])] ps")
  have ds1: "deps_sound g1"
    using dfs_loop_sound[OF "2.prems", of "[(node, [])]" ps] d by simp
  have wf1: "well_formed g1"
    using same_structure_well_formed[OF same_structure_dfs_loop "2.prems"(1), of "[(node, [])]" ps] d
    by simp
  show ?case
  proof (cases r)
    case None
    with d ds1 show ?thesis by simp
  next
    case (Some ps1)
    with "2.IH"[OF d[symmetric] Some wf1 ds1] d show ?thesis by simp
  qed
qed

section \<open>The exploration of an acyclic graph\<close>

text \<open>
  On an acyclic graph the loop finds no target on its current path, and when it is done
  every frame \<open>(n, p)\<close> of its stack has been explored in full: each node \<open>x\<close> on the path
  \<open>p\<close> or reachable from \<open>n\<close> has every node \<open>m\<close> that is reachable from \<open>n\<close> and from \<open>x\<close> in
  its dependency set.
\<close>

lemma no_successor_rtrancl: "\<forall>v. (n, v) \<notin> E \<Longrightarrow> (n, m) \<in> E\<^sup>* \<Longrightarrow> m = n"
  by (metis converse_rtranclE)

lemma dfs_loop_acyclic:
  assumes "well_formed g" "acyclic (edge_rel g)"
    "\<forall>(n, p) \<in> set st. path_in (edge_rel g) (p @ [n])"
  shows "\<exists>ps' g'. dfs_loop g st ps = (Some ps', g') \<and>
     (\<forall>(n, p) \<in> set st. \<forall>x m.
        (x \<in> set p \<or> (n, x) \<in> (edge_rel g)\<^sup>*) \<and> (n, m) \<in> (edge_rel g)\<^sup>* \<and> (x, m) \<in> (edge_rel g)\<^sup>+
        \<longrightarrow> m \<in> dependencies_of g' x)"
  using assms
proof (induction g st ps rule: dfs_loop.induct)
  case (1 g ps)
  then show ?case by simp
next
  case (2 g cur path0 node_stack ps)
  let ?E = "edge_rel g"
  let ?cp = "path0 @ [cur]"
  let ?g1 = "add_dependencies ?cp cur g"
  have s: "same_structure g ?g1" by (rule same_structure_add_dependencies)
  have wf1: "well_formed ?g1" using s "2.prems"(1) by (rule same_structure_well_formed)
  have E1: "edge_rel ?g1 = ?E" by (rule same_structure_edge_rel[OF s])
  have ac1: "acyclic (edge_rel ?g1)" using "2.prems"(2) by (simp add: E1)
  have o: "outgoing_of ?g1 cur = outgoing_of g cur"
    by (rule outgoing_of_add_dependencies)
  from "2.prems"(3) have cp: "path_in ?E ?cp"
    and rest: "\<forall>(n, p) \<in> set node_stack. path_in ?E (p @ [n])" by auto
  have irr: "(x, x) \<notin> ?E\<^sup>+" for x
    using "2.prems"(2) by (simp add: acyclic_def)
  have succ: "(cur, v) \<in> ?E \<longleftrightarrow> (\<exists>e \<in> set (outgoing_of g cur). to_node e = v)" for v
    by (rule edge_rel_iff[OF "2.prems"(1)])
  \<comment> \<open>what this iteration itself records\<close>
  have here: "cur \<in> dependencies_of ?g1 x" if "x \<in> set path0" for x
  proof -
    from path_in_trancl[OF cp that] have t: "(x, cur) \<in> ?E\<^sup>+" .
    with irr have "x \<noteq> cur" by auto
    moreover from trancl_edge_rel_keys(1)[OF "2.prems"(1) t] have "x \<in> set (keys g)" .
    ultimately show ?thesis using that by (simp add: dependencies_of_add_dependencies)
  qed
  show ?case
  proof (cases "length (outgoing_of ?g1 cur) = 0")
    case True
    from "2.IH"(1)[OF refl refl True _ wf1 ac1] rest E1
    obtain ps' g' where r: "dfs_loop ?g1 node_stack (ps @ [?cp]) = (Some ps', g')"
      and c: "\<forall>(n, p) \<in> set node_stack. \<forall>x m.
        (x \<in> set p \<or> (n, x) \<in> ?E\<^sup>*) \<and> (n, m) \<in> ?E\<^sup>* \<and> (x, m) \<in> ?E\<^sup>+
        \<longrightarrow> m \<in> dependencies_of g' x"
      by auto
    have res: "dfs_loop g ((cur, path0) # node_stack) ps = (Some ps', g')"
      using True r by (simp add: Let_def)
    have mono: "dependencies_of ?g1 x \<subseteq> dependencies_of g' x" for x
      using dfs_loop_mono[of ?g1 x node_stack "ps @ [?cp]"] r by simp
    from True o have nosucc: "\<forall>v. (cur, v) \<notin> ?E" by (simp add: succ)
    have "m \<in> dependencies_of g' x"
      if "x \<in> set path0 \<or> (cur, x) \<in> ?E\<^sup>*" "(cur, m) \<in> ?E\<^sup>*" "(x, m) \<in> ?E\<^sup>+" for x m
    proof -
      from no_successor_rtrancl[OF nosucc that(2)] have m: "m = cur" .
      have "x \<in> set path0"
      proof (rule ccontr)
        assume "x \<notin> set path0"
        with that(1) have "(cur, x) \<in> ?E\<^sup>*" by simp
        from no_successor_rtrancl[OF nosucc this] that(3) m irr show False by simp
      qed
      from here[OF this] mono m show ?thesis by blast
    qed
    with c res show ?thesis by auto
  next
    case False
    have "push_targets ?cp (outgoing_of ?g1 cur) node_stack \<noteq> None"
    proof
      assume "push_targets ?cp (outgoing_of ?g1 cur) node_stack = None"
      then obtain e where e: "e \<in> set (outgoing_of g cur)" "to_node e \<in> set ?cp"
        by (auto simp: push_targets_None_iff o)
      from e(1) have "(cur, to_node e) \<in> ?E" using succ by blast
      moreover from path_in_rtrancl[OF cp e(2)] have "(to_node e, cur) \<in> ?E\<^sup>*" .
      ultimately have "(cur, cur) \<in> ?E\<^sup>+" by (meson rtrancl_into_trancl2)
      with irr show False by blast
    qed
    then obtain st' where Some: "push_targets ?cp (outgoing_of ?g1 cur) node_stack = Some st'"
      by auto
    from push_targets_Some[OF Some] o
    have st': "st' = rev (map (\<lambda>e. (to_node e, ?cp)) (outgoing_of g cur)) @ node_stack" by simp
    from pushed_frames_paths[OF "2.prems"(1) cp _ rest, of st'] Some o
    have "\<forall>(n, p) \<in> set st'. path_in (edge_rel ?g1) (p @ [n])" by (simp add: E1)
    from "2.IH"(3)[OF refl refl False Some wf1 ac1 this] E1
    obtain ps' g' where r: "dfs_loop ?g1 st' ps = (Some ps', g')"
      and c: "\<forall>(n, p) \<in> set st'. \<forall>x m.
        (x \<in> set p \<or> (n, x) \<in> ?E\<^sup>*) \<and> (n, m) \<in> ?E\<^sup>* \<and> (x, m) \<in> ?E\<^sup>+
        \<longrightarrow> m \<in> dependencies_of g' x"
      by auto
    have res: "dfs_loop g ((cur, path0) # node_stack) ps = (Some ps', g')"
      using False Some r by (simp add: Let_def)
    have mono: "dependencies_of ?g1 x \<subseteq> dependencies_of g' x" for x
      using dfs_loop_mono[of ?g1 x st' ps] r by simp
    have child: "m \<in> dependencies_of g' x"
      if "(cur, t) \<in> ?E" "x \<in> set ?cp \<or> (t, x) \<in> ?E\<^sup>*" "(t, m) \<in> ?E\<^sup>*" "(x, m) \<in> ?E\<^sup>+"
      for t x m
    proof -
      from that(1) obtain e where "e \<in> set (outgoing_of g cur)" "to_node e = t"
        using succ by blast
      then have "(t, ?cp) \<in> set st'" unfolding st' by force
      with c that(2-4) show ?thesis by blast
    qed
    have "m \<in> dependencies_of g' x"
      if "x \<in> set path0 \<or> (cur, x) \<in> ?E\<^sup>*" "(cur, m) \<in> ?E\<^sup>*" "(x, m) \<in> ?E\<^sup>+" for x m
    proof (cases "x \<in> set ?cp")
      case on_path: True
      show ?thesis
      proof (cases "m = cur")
        case True
        with that(3) irr on_path have "x \<in> set path0" by auto
        from here[OF this] mono True show ?thesis by blast
      next
        case False
        with that(2) obtain t where "(cur, t) \<in> ?E" "(t, m) \<in> ?E\<^sup>*"
          by (metis converse_rtranclE)
        from child[OF this(1) _ this(2) that(3)] on_path show ?thesis by blast
      qed
    next
      case False
      with that(1) have "(cur, x) \<in> ?E\<^sup>*" "x \<noteq> cur" by auto
      then obtain t where t: "(cur, t) \<in> ?E" "(t, x) \<in> ?E\<^sup>*"
        by (metis converse_rtranclE)
      from t(2) that(3) have "(t, m) \<in> ?E\<^sup>*" by (meson rtrancl_trans trancl_into_rtrancl)
      from child[OF t(1) _ this that(3)] t(2) show ?thesis by blast
    qed
    moreover have "\<forall>(n, p) \<in> set node_stack. \<forall>x m.
        (x \<in> set p \<or> (n, x) \<in> ?E\<^sup>*) \<and> (n, m) \<in> ?E\<^sup>* \<and> (x, m) \<in> ?E\<^sup>+
        \<longrightarrow> m \<in> dependencies_of g' x"
      using c unfolding st' by auto
    ultimately show ?thesis using res by auto
  qed
qed

lemma explore_roots_acyclic:
  assumes "well_formed g" "acyclic (edge_rel g)"
  shows "\<exists>ps' g'. explore_roots g rs ps = (Some ps', g') \<and>
     (\<forall>r \<in> set rs. \<forall>x m. (r, x) \<in> (edge_rel g)\<^sup>* \<and> (x, m) \<in> (edge_rel g)\<^sup>+
        \<longrightarrow> m \<in> dependencies_of g' x)"
  using assms
proof (induction g rs ps rule: explore_roots.induct)
  case (1 g ps)
  then show ?case by simp
next
  case (2 g node root_nodes ps)
  let ?E = "edge_rel g"
  from dfs_loop_acyclic[OF "2.prems", of "[(node, [])]" ps]
  obtain ps1 g1 where d: "dfs_loop g [(node, [])] ps = (Some ps1, g1)"
    and c1: "\<forall>x m. (node, x) \<in> ?E\<^sup>* \<and> (node, m) \<in> ?E\<^sup>* \<and> (x, m) \<in> ?E\<^sup>+
        \<longrightarrow> m \<in> dependencies_of g1 x"
    by auto
  have s: "same_structure g g1"
    using same_structure_dfs_loop[of g "[(node, [])]" ps] d by simp
  have wf1: "well_formed g1" using s "2.prems"(1) by (rule same_structure_well_formed)
  have E1: "edge_rel g1 = ?E" by (rule same_structure_edge_rel[OF s])
  have ac1: "acyclic (edge_rel g1)" using "2.prems"(2) by (simp add: E1)
  from "2.IH"[OF d[symmetric] refl wf1 ac1] E1
  obtain ps' g' where r: "explore_roots g1 root_nodes ps1 = (Some ps', g')"
    and c: "\<forall>r \<in> set root_nodes. \<forall>x m. (r, x) \<in> ?E\<^sup>* \<and> (x, m) \<in> ?E\<^sup>+
        \<longrightarrow> m \<in> dependencies_of g' x"
    by auto
  have mono: "dependencies_of g1 x \<subseteq> dependencies_of g' x" for x
    using explore_roots_mono[of g1 x root_nodes ps1] r by simp
  have "m \<in> dependencies_of g' x" if "(node, x) \<in> ?E\<^sup>*" "(x, m) \<in> ?E\<^sup>+" for x m
  proof -
    from that have "(node, m) \<in> ?E\<^sup>*" by (meson rtrancl_trans trancl_into_rtrancl)
    with c1 that mono show ?thesis by blast
  qed
  with c d r show ?case by auto
qed

lemma dependencies_of_paths_update [simp]:
  "dependencies_of (g\<lparr>paths := ps\<rparr>) = dependencies_of g"
  by (rule ext) (simp add: dependencies_of_def get_node_def)

lemma edge_rel_paths_update [simp]: "edge_rel (g\<lparr>paths := ps\<rparr>) = edge_rel g"
  by (simp add: edge_rel_def graph_edges_def)

lemma deps_sound_paths_update [simp]: "deps_sound (g\<lparr>paths := ps\<rparr>) = deps_sound g"
  by (simp add: deps_sound_def)

lemma well_formed_paths_update [simp]: "well_formed (g\<lparr>paths := ps\<rparr>) = well_formed g"
  by (simp add: well_formed_def keys_def get_node_def edges_of_def)

lemma find_paths_acyclic:
  assumes "well_formed g" "acyclic (edge_rel g)" "deps_sound g"
  shows "\<exists>ps g'. find_paths (Suc lim) g = (Inr ps, g', []) \<and> same_structure g g' \<and>
           (\<forall>k. dependencies_of g' k = {m. (k, m) \<in> (edge_rel g)\<^sup>+})"
proof -
  let ?E = "edge_rel g"
  let ?rs = "filter (is_root g) (keys g)"
  have dirty: "cache_dirty g" using assms(1) by (simp add: well_formed_def)
  have roots: "root_nodes_loop (nodes g) [] = Inr ?rs"
    by (rule root_nodes_loop_well_formed[OF assms(1)])
  from explore_roots_acyclic[OF assms(1,2), of ?rs "[]"]
  obtain ps g1 where e: "explore_roots g ?rs [] = (Some ps, g1)"
    and c: "\<forall>r \<in> set ?rs. \<forall>x m. (r, x) \<in> ?E\<^sup>* \<and> (x, m) \<in> ?E\<^sup>+ \<longrightarrow> m \<in> dependencies_of g1 x"
    by auto
  have s: "same_structure g g1"
    using same_structure_explore_roots[of g ?rs "[]"] e by simp
  have E1: "edge_rel g1 = ?E" by (rule same_structure_edge_rel[OF s])
  have sound: "deps_sound g1"
    using explore_roots_sound[OF assms(1,3), of ?rs "[]"] e by simp
  have "dependencies_of g1 k = {m. (k, m) \<in> ?E\<^sup>+}" for k
  proof (intro equalityI subsetI)
    fix m assume "m \<in> dependencies_of g1 k"
    with sound E1 show "m \<in> {m. (k, m) \<in> ?E\<^sup>+}" by (simp add: deps_sound_def)
  next
    fix m assume "m \<in> {m. (k, m) \<in> ?E\<^sup>+}"
    then have km: "(k, m) \<in> ?E\<^sup>+" by simp
    from trancl_edge_rel_keys(1)[OF assms(1) km] have "k \<in> set (keys g)" .
    from reachable_from_root[OF assms(1,2) this]
    obtain r where r: "is_root g r" "(r, k) \<in> ?E\<^sup>*" by blast
    then have "r \<in> set ?rs" by (simp add: is_root_def)
    with c r(2) km show "m \<in> dependencies_of g1 k" by blast
  qed
  moreover have "find_paths (Suc lim) g = (Inr ps, g1\<lparr>paths := ps\<rparr>, [])"
    using find_paths_success[OF dirty roots e] .
  ultimately show ?thesis using s by simp
qed

section \<open>Soundness of the dependency sets in every graph built through the public operations\<close>

lemma deps_sound_find_paths_dump:
  "well_formed g \<Longrightarrow> deps_sound g \<Longrightarrow> deps_sound (fst (snd (find_paths lim g)))"
  "well_formed g \<Longrightarrow> deps_sound g \<Longrightarrow> deps_sound (fst (snd (dump lim g)))"
proof (induction lim g and lim g rule: find_paths_dump.induct)
  case (1 g)
  then show ?case by simp
next
  case (2 lim g)
  show ?case
  proof (cases "cache_dirty g")
    case False
    with "2.prems" show ?thesis by simp
  next
    case dirty: True
    show ?thesis
    proof (cases "root_nodes_loop (nodes g) []")
      case (Inl err)
      with dirty "2.prems" show ?thesis by simp
    next
      case (Inr root_nodes)
      obtain r g1 where e: "explore_roots g root_nodes [] = (r, g1)"
        by (cases "explore_roots g root_nodes []")
      have s1: "deps_sound g1"
        using explore_roots_sound[OF "2.prems", of root_nodes "[]"] e by simp
      have wf1: "well_formed g1"
        using same_structure_well_formed[OF same_structure_explore_roots "2.prems"(1), of root_nodes "[]"] e
        by simp
      show ?thesis
      proof (cases r)
        case None
        from "2.IH"[OF _ Inr e[symmetric] None wf1 s1] dirty
        have "deps_sound (fst (snd (dump lim g1)))" by simp
        with e None dirty Inr show ?thesis
          by (auto split: prod.splits sum.splits)
      next
        case (Some ps)
        with e dirty Inr s1 show ?thesis by simp
      qed
    qed
  qed
next
  case (3 g)
  then show ?case by simp
next
  case (4 lim g)
  then show ?case by (auto split: prod.splits sum.splits)
qed

lemma deps_sound_create_plan:
  "well_formed g \<Longrightarrow> deps_sound g \<Longrightarrow> deps_sound (fst (snd (create_plan lim g)))"
  using deps_sound_find_paths_dump(1)[of g lim]
  by (auto simp: create_plan_def Let_def split: prod.splits sum.splits)

lemma deps_sound_add_node:
  assumes "well_formed g" "deps_sound g"
  shows "deps_sound (snd (add_node g (Node nm d)))"
proof (cases "get_node g nm")
  case (Some x)
  with assms show ?thesis by (simp add: add_node_def Node_def)
next
  case None
  define g' where "g' = g\<lparr>nodes := nodes g @ [(nm, Node nm d)]\<rparr>"
  have res: "snd (add_node g (Node nm d)) = g'"
    using None by (simp add: add_node_def Node_def g'_def)
  have get: "get_node g' k = (if k = nm then Some (Node nm d) else get_node g k)" for k
    using None by (auto simp: get_node_append g'_def split: option.splits)
  have d: "dependencies_of g' k = dependencies_of g k" for k
    using None by (simp add: dependencies_of_def get Node_def get_dependencies_def)
  have "edge_rel g' = edge_rel g"
    by (simp add: edge_rel_def graph_edges_def g'_def Node_def)
  with assms(2) d have "deps_sound g'" by (simp add: deps_sound_def)
  with res show ?thesis by simp
qed

lemma deps_sound_add_edge:
  assumes wf: "well_formed g" and ds: "deps_sound g"
  shows "deps_sound (snd (add_edge g a b))"
proof -
  from add_edge_well_formed_cases[OF wf, of a b]
  consider (fail) "snd (add_edge g a b) = g"
    | (ok) na nb where "a \<noteq> b" "get_node g a = Some na" "get_node g b = Some nb"
        "snd (add_edge g a b) =
           update_node b (\<lambda>_. nb\<lparr>edges := edges nb @ [Edge a b],
                                  incoming_edges := incoming_edges nb @ [Edge a b]\<rparr>)
            (update_node a (\<lambda>_. na\<lparr>edges := edges na @ [Edge a b],
                                  outgoing_edges := outgoing_edges na @ [Edge a b]\<rparr>) g)"
    by fastforce
  then show ?thesis
  proof cases
    case fail
    with ds show ?thesis by simp
  next
    case ok
    define g' where "g' = snd (add_edge g a b)"
    have wf': "well_formed g'" unfolding g'_def by (rule well_formed_add_edge[OF wf])
    have get: "get_node g' k = (if k = b then Some (nb\<lparr>edges := edges nb @ [Edge a b],
                                  incoming_edges := incoming_edges nb @ [Edge a b]\<rparr>)
                else if k = a then Some (na\<lparr>edges := edges na @ [Edge a b],
                                  outgoing_edges := outgoing_edges na @ [Edge a b]\<rparr>)
                else get_node g k)" for k
      using ok(1-3) by (simp add: g'_def ok(4) get_node_update_node)
    have d: "dependencies_of g' k = dependencies_of g k" for k
      using ok(2,3) by (simp add: dependencies_of_def get get_dependencies_def)
    have o: "set (outgoing_of g k) \<subseteq> set (outgoing_of g' k)" for k
      using ok(2,3) by (auto simp: outgoing_of_def get)
    have "edge_rel g \<subseteq> edge_rel g'"
      using o by (fastforce simp: edge_rel_iff[OF wf] edge_rel_iff[OF wf'])
    then have "(edge_rel g)\<^sup>+ \<subseteq> (edge_rel g')\<^sup>+" by (rule trancl_mono_subset)
    with ds d have "deps_sound g'" by (auto simp: deps_sound_def)
    then show ?thesis by (simp add: g'_def)
  qed
qed

lemma deps_sound_call_state:
  "well_formed g \<Longrightarrow> deps_sound g \<Longrightarrow> deps_sound (call_state lim g c)"
  by (cases c)
     (simp_all add: deps_sound_add_node deps_sound_add_edge deps_sound_find_paths_dump
        deps_sound_create_plan)

lemma deps_sound_foldl:
  "well_formed g \<Longrightarrow> deps_sound g \<Longrightarrow> deps_sound (foldl (call_state lim) g calls)"
  by (induction calls arbitrary: g) (simp_all add: deps_sound_call_state well_formed_call_state)

lemma deps_sound_run: "deps_sound (run lim calls)"
  unfolding run_def
  by (rule deps_sound_foldl[OF well_formed_DirectedGraph])
     (simp add: deps_sound_def dependencies_of_def get_node_def DirectedGraph_def)

section \<open>The order of a plan\<close>

lemma before_Nil [simp]: "\<not> before [] a b"
  by (simp add: before_def)

lemma before_Cons: "before (x # xs) a b \<longleftrightarrow> (x = a \<and> b \<in> set xs) \<or> before xs a b"
proof
  assume "before (x # xs) a b"
  then obtain i j where ij: "i < j" "j < Suc (length xs)" "(x # xs) ! i = a" "(x # xs) ! j = b"
    by (auto simp: before_def)
  then obtain j' where j: "j = Suc j'" by (cases j) auto
  show "(x = a \<and> b \<in> set xs) \<or> before xs a b"
  proof (cases i)
    case 0
    with ij j show ?thesis by auto
  next
    case (Suc i')
    with ij j have "i' < j'" "j' < length xs" "xs ! i' = a" "xs ! j' = b" by auto
    then show ?thesis unfolding before_def by blast
  qed
next
  assume "(x = a \<and> b \<in> set xs) \<or> before xs a b"
  then show "before (x # xs) a b"
  proof
    assume "x = a \<and> b \<in> set xs"
    then obtain j where "j < length xs" "xs ! j = b" "x = a" by (auto simp: in_set_conv_nth)
    then have "0 < Suc j \<and> Suc j < length (x # xs) \<and> (x # xs) ! 0 = a \<and> (x # xs) ! Suc j = b"
      by simp
    then show ?thesis unfolding before_def by blast
  next
    assume "before xs a b"
    then obtain i j where "i < j" "j < length xs" "xs ! i = a" "xs ! j = b"
      by (auto simp: before_def)
    then have "Suc i < Suc j \<and> Suc j < length (x # xs) \<and> (x # xs) ! Suc i = a \<and> (x # xs) ! Suc j = b"
      by simp
    then show ?thesis unfolding before_def by blast
  qed
qed

lemma before_in_set: "before xs a b \<Longrightarrow> a \<in> set xs \<and> b \<in> set xs"
  by (induction xs) (auto simp: before_Cons)

lemma before_append:
  "before (xs @ ys) a b \<longleftrightarrow> before xs a b \<or> before ys a b \<or> (a \<in> set xs \<and> b \<in> set ys)"
  by (induction xs) (auto simp: before_Cons dest: before_in_set)

lemma not_before_last:
  assumes "distinct B" "B \<noteq> []"
  shows "\<not> before B (last B) m"
proof -
  from assms(2) have B: "B = butlast B @ [last B]" by simp
  with assms(1) have "last B \<notin> set (butlast B)"
    by (metis distinct_append disjoint_iff list.set_intros(1))
  then have "\<not> before (butlast B @ [last B]) (last B) m"
    by (auto simp: before_append before_Cons dest: before_in_set)
  with B show ?thesis by simp
qed

text \<open>
  Moving \<open>n\<close> from its place to the place behind \<open>B\<close> keeps the order of all other pairs,
  and puts \<open>n\<close> behind the elements of \<open>A\<close> and \<open>B\<close>.
\<close>

lemma relocate_others:
  assumes "before (A @ n # B @ C) d m" "d \<noteq> n" "m \<noteq> n"
  shows "before (A @ B @ n # C) d m"
  using assms by (auto simp: before_append before_Cons dest: before_in_set)

lemma relocate_self:
  assumes "d \<in> set A \<union> set B"
  shows "before (A @ B @ n # C) d n"
  using assms by (auto simp: before_append before_Cons)

lemma relocate_keeps_done:
  assumes dist: "distinct (A @ n # B @ C)"
    and trans: "\<And>x y z. R x y \<Longrightarrow> R y z \<Longrightarrow> R x z"
    and last: "B \<noteq> [] \<Longrightarrow> R n (last B)"
    and m: "\<And>d. R m d \<Longrightarrow> before (A @ n # B @ C) d m" "m \<noteq> n"
    and d: "R m d"
  shows "before (A @ B @ n # C) d m"
proof (cases "d = n")
  case False
  with relocate_others[OF m(1)[OF d] _ m(2)] show ?thesis by simp
next
  case True
  from m(1)[OF d] True have bm: "before (A @ n # B @ C) n m" by simp
  have "m \<notin> set B"
  proof
    assume mB: "m \<in> set B"
    then have ne: "B \<noteq> []" by auto
    from trans[OF d[unfolded True] last[OF ne]] have "R m (last B)" .
    from m(1)[OF this] have "before (A @ n # B @ C) (last B) m" .
    moreover have "last B \<in> set B" using ne by simp
    ultimately have "before B (last B) m"
      using dist mB by (auto simp: before_append before_Cons dest: before_in_set)
    with not_before_last[of B m] dist ne show False by simp
  qed
  with bm dist have "m \<in> set C"
    by (auto simp: before_append before_Cons dest: before_in_set)
  then show ?thesis unfolding True by (auto simp: before_append before_Cons)
qed

section \<open>The scan of create\_plan\<close>

lemma scan_loop_append:
  "scan_loop g n xs (as @ bs) acc = scan_loop g n xs bs (scan_loop g n xs as acc)"
proof (induction as arbitrary: acc)
  case Nil
  then show ?case by (cases acc) simp
next
  case (Cons a as)
  then show ?case by (cases acc) (simp add: Let_def)
qed

text \<open>
  After the scan of the positions below \<open>k\<close>: \<open>highest_idx\<close> bounds the positions of the
  nodes that \<open>n\<close> is less than, and is 0 or such a position; \<open>index_of_node\<close> is the last
  position of \<open>n\<close>, if there is one.
\<close>

lemma scan_loop_upt:
  assumes "k \<le> length xs"
  shows "case scan_loop g n xs [0..<k] (i0, 0) of (idx, hi) \<Rightarrow>
           0 \<le> hi \<and> (\<forall>i<k. lt g n (xs ! i) \<longrightarrow> int i \<le> hi) \<and>
           (hi = 0 \<or> (nat hi < k \<and> lt g n (xs ! nat hi))) \<and>
           (\<forall>i<k. xs ! i = n \<longrightarrow> int i \<le> idx) \<and>
           ((\<exists>i<k. xs ! i = n) \<longrightarrow> 0 \<le> idx \<and> nat idx < k \<and> xs ! nat idx = n)"
  using assms
proof (induction k)
  case 0
  then show ?case by simp
next
  case (Suc k)
  obtain idx hi where r: "scan_loop g n xs [0..<k] (i0, 0) = (idx, hi)"
    by (cases "scan_loop g n xs [0..<k] (i0, 0)")
  from Suc r have IH: "0 \<le> hi" "\<forall>i<k. lt g n (xs ! i) \<longrightarrow> int i \<le> hi"
    "hi = 0 \<or> (nat hi < k \<and> lt g n (xs ! nat hi))"
    "\<forall>i<k. xs ! i = n \<longrightarrow> int i \<le> idx"
    "(\<exists>i<k. xs ! i = n) \<longrightarrow> 0 \<le> idx \<and> nat idx < k \<and> xs ! nat idx = n"
    by auto
  define idx' where "idx' = (if n = xs ! k then int k else idx)"
  define hi' where "hi' = (if lt g n (xs ! k) then (if int k > hi then int k else hi) else hi)"
  have step: "scan_loop g n xs [0..<Suc k] (i0, 0) = (idx', hi')"
    by (simp add: scan_loop_append r idx'_def hi'_def Let_def)
  have 1: "0 \<le> hi'" using IH(1) by (simp add: hi'_def)
  have 2: "\<forall>i<Suc k. lt g n (xs ! i) \<longrightarrow> int i \<le> hi'"
    using IH(2) by (auto simp: hi'_def less_Suc_eq)
  have 3: "hi' = 0 \<or> (nat hi' < Suc k \<and> lt g n (xs ! nat hi'))"
    using IH(1,3) by (auto simp: hi'_def)
  have 4: "\<forall>i<Suc k. xs ! i = n \<longrightarrow> int i \<le> idx'"
    using IH(4) by (auto simp: idx'_def less_Suc_eq)
  have 5: "(\<exists>i<Suc k. xs ! i = n) \<longrightarrow> 0 \<le> idx' \<and> nat idx' < Suc k \<and> xs ! nat idx' = n"
    using IH(5) by (auto simp: idx'_def less_Suc_eq)
  from 1 2 3 4 5 show ?case unfolding step by simp
qed

lemma plan_loop_Cons:
  "plan_loop g (node # todo) xs idx
   = plan_loop g todo (plan_step g node xs idx)
       (fst (scan_loop g node xs [0..<length xs] (idx, 0)))"
  by (simp add: plan_step_def split: prod.splits)

lemma mset_plan_step: "mset (plan_step g n xs idx) = mset xs"
proof -
  have "mset (remove1 n (list_insert k n xs)) = mset xs" for k
  proof -
    have "mset (list_insert k n xs) = add_mset n (mset xs)"
      by (simp add: list_insert_def) (metis append_take_drop_id mset_append)
    then show ?thesis by simp
  qed
  then show ?thesis by (simp add: plan_step_def split: prod.splits)
qed

lemma mset_plan_loop: "mset (plan_loop g todo xs idx) = mset xs"
  by (induction todo arbitrary: xs idx) (simp_all add: plan_loop_Cons mset_plan_step del: plan_loop.simps(2))

text \<open>
  The step on a list without repetitions that holds \<open>n\<close>: either the list stays and all
  nodes that \<open>n\<close> is less than stand before \<open>n\<close>, or \<open>n\<close> is moved behind a segment \<open>B\<close>; the
  nodes that \<open>n\<close> is less than stand in \<open>A\<close> and \<open>B\<close>, the last one at the end of \<open>B\<close>.
\<close>

lemma plan_step_cases:
  assumes dist: "distinct xs" and n: "n \<in> set xs"
    and irr: "\<not> lt g n n" and closed: "\<And>d. lt g n d \<Longrightarrow> d \<in> set xs"
  shows "(plan_step g n xs idx = xs \<and> (\<forall>d. lt g n d \<longrightarrow> before xs d n))
       \<or> (\<exists>A B C. xs = A @ n # B @ C \<and> plan_step g n xs idx = A @ B @ n # C \<and>
             (\<forall>d. lt g n d \<longrightarrow> d \<in> set A \<union> set B) \<and> (B \<noteq> [] \<longrightarrow> lt g n (last B)))"
proof -
  from n obtain p where p: "p < length xs" "xs ! p = n" by (auto simp: in_set_conv_nth)
  obtain idx' hi where r: "scan_loop g n xs [0..<length xs] (idx, 0) = (idx', hi)"
    by (cases "scan_loop g n xs [0..<length xs] (idx, 0)")
  from scan_loop_upt[of "length xs" xs g n idx] r
  have S: "0 \<le> hi" "\<forall>i<length xs. lt g n (xs ! i) \<longrightarrow> int i \<le> hi"
    "hi = 0 \<or> (nat hi < length xs \<and> lt g n (xs ! nat hi))"
    "(\<exists>i<length xs. xs ! i = n) \<longrightarrow> 0 \<le> idx' \<and> nat idx' < length xs \<and> xs ! nat idx' = n"
    by auto
  from S(4) p have "0 \<le> idx'" "nat idx' < length xs" "xs ! nat idx' = n" by blast+
  with p dist have idx': "idx' = int p"
    by (metis nth_eq_iff_index_eq int_nat_eq)
  define h where "h = nat hi"
  have hi: "hi = int h" using S(1) by (simp add: h_def)
  have bound: "i \<le> h" if "i < length xs" "lt g n (xs ! i)" for i
    using S(2) that hi by auto
  have dep_pos: "\<exists>i<length xs. i \<le> h \<and> i \<noteq> p \<and> xs ! i = d" if "lt g n d" for d
  proof -
    from closed[OF that] obtain i where i: "i < length xs" "xs ! i = d"
      by (auto simp: in_set_conv_nth)
    with that bound[of i] have "i \<le> h" by simp
    moreover from that irr i p have "i \<noteq> p" by auto
    ultimately show ?thesis using i by blast
  qed
  show ?thesis
  proof (cases "hi + 1 > idx'")
    case False
    then have hp: "h < p" using hi idx' by simp
    have stay: "plan_step g n xs idx = xs" using False r by (simp add: plan_step_def)
    have "before xs d n" if "lt g n d" for d
    proof -
      from dep_pos[OF that] obtain i where "i < length xs" "i \<le> h" "xs ! i = d" by blast
      with hp p have "i < p \<and> p < length xs \<and> xs ! i = d \<and> xs ! p = n" by simp
      then show ?thesis unfolding before_def by blast
    qed
    with stay show ?thesis by blast
  next
    case True
    then have ph: "p \<le> h" using hi idx' by simp
    have hlen: "h < length xs"
    proof (cases "hi = 0")
      case True
      with hi ph p show ?thesis by simp
    next
      case False
      with S(3) show ?thesis by (simp add: h_def)
    qed
    define A where "A = take p xs"
    define B where "B = drop (Suc p) (take (Suc h) xs)"
    define C where "C = drop (Suc h) xs"
    have tk: "take (Suc h) xs = A @ n # B"
    proof -
      have "p < length (take (Suc h) xs)" using ph hlen by simp
      from id_take_nth_drop[OF this] ph p show ?thesis
        by (simp add: A_def B_def min_def)
    qed
    have xs: "xs = A @ n # B @ C"
      using append_take_drop_id[of "Suc h" xs] tk by (simp add: C_def)
    have nA: "n \<notin> set A" using dist unfolding xs by auto
    have "nat (hi + 1) = Suc h" using hi by simp
    then have "plan_step g n xs idx = remove1 n (take (Suc h) xs @ n # drop (Suc h) xs)"
      using True r by (simp add: plan_step_def list_insert_def)
    also have "\<dots> = A @ B @ n # C"
      using nA by (simp add: tk C_def remove1_append)
    finally have moved: "plan_step g n xs idx = A @ B @ n # C" .
    have deps: "d \<in> set A \<union> set B" if "lt g n d" for d
    proof -
      from dep_pos[OF that] obtain i where i: "i < length xs" "i \<le> h" "i \<noteq> p" "xs ! i = d" by blast
      then have "d \<in> set (take (Suc h) xs)"
        by (metis in_set_conv_nth length_take less_Suc_eq_le min_less_iff_conj nth_take)
      moreover from i p dist have "d \<noteq> n" by (metis nth_eq_iff_index_eq)
      ultimately show ?thesis by (auto simp: tk)
    qed
    have lastB: "lt g n (last B)" if "B \<noteq> []"
    proof -
      from that have "Suc p < Suc h" using hlen by (simp add: B_def)
      then have "hi \<noteq> 0" using hi by simp
      with S(3) have l: "lt g n (xs ! h)" by (simp add: h_def)
      from that have "last B = last (take (Suc h) xs)" by (simp add: tk)
      also have "\<dots> = xs ! h" using hlen by (simp add: take_Suc_conv_app_nth)
      finally show ?thesis using l by simp
    qed
    from xs moved deps lastB show ?thesis by blast
  qed
qed

section \<open>The plan of an acyclic graph\<close>

text \<open>
  The loop over \<^verbatim>\<open>nodes_to_insert\<close>, for a comparison \<^verbatim>\<open><\<close> that is irreflexive and
  transitive: a node that has been handled stands behind every node it is less than, and
  stays there while the other nodes are handled.
\<close>

lemma plan_loop_order:
  assumes irr: "\<And>x. \<not> lt g x x"
    and trans: "\<And>x y z. lt g x y \<Longrightarrow> lt g y z \<Longrightarrow> lt g x z"
    and closed: "\<And>x y. lt g x y \<Longrightarrow> y \<in> S"
    and "distinct xs" "set xs = S" "set todo \<subseteq> S"
    and "\<forall>m \<in> D. \<forall>d. lt g m d \<longrightarrow> before xs d m"
  shows "\<forall>m \<in> D \<union> set todo. \<forall>d. lt g m d \<longrightarrow> before (plan_loop g todo xs idx) d m"
  using assms(4-)
proof (induction todo arbitrary: xs idx D)
  case Nil
  then show ?case by simp
next
  case (Cons n todo)
  let ?ys = "plan_step g n xs idx"
  have nxs: "n \<in> set xs" using Cons.prems by auto
  have cl: "\<And>d. lt g n d \<Longrightarrow> d \<in> set xs" using closed Cons.prems(2) by blast
  have ms: "mset ?ys = mset xs" by (rule mset_plan_step)
  have dist': "distinct ?ys" using Cons.prems(1) ms by (metis distinct_count_atmost_1 set_mset_mset)
  have set': "set ?ys = S" using Cons.prems(2) ms by (metis set_mset_mset)
  have done': "\<forall>m \<in> insert n D. \<forall>d. lt g m d \<longrightarrow> before ?ys d m"
  proof (intro ballI allI impI)
    fix m d assume m: "m \<in> insert n D" and d: "lt g m d"
    from plan_step_cases[OF Cons.prems(1) nxs irr cl, of idx]
    consider (stay) "?ys = xs" "\<forall>d. lt g n d \<longrightarrow> before xs d n"
      | (move) A B C where "xs = A @ n # B @ C" "?ys = A @ B @ n # C"
          "\<forall>d. lt g n d \<longrightarrow> d \<in> set A \<union> set B" "B \<noteq> [] \<longrightarrow> lt g n (last B)"
      by blast
    then show "before ?ys d m"
    proof cases
      case stay
      with m d Cons.prems(4) show ?thesis by auto
    next
      case move
      show ?thesis
      proof (cases "m = n")
        case True
        with move(3) d have "d \<in> set A \<union> set B" by blast
        from relocate_self[OF this] True move(2) show ?thesis by simp
      next
        case False
        with m have mD: "m \<in> D" by simp
        have "before (A @ B @ n # C) d m"
        proof (rule relocate_keeps_done[where R = "lt g"])
          show "distinct (A @ n # B @ C)" using Cons.prems(1) move(1) by simp
          show "\<And>x y z. lt g x y \<Longrightarrow> lt g y z \<Longrightarrow> lt g x z" by (rule trans)
          show "B \<noteq> [] \<Longrightarrow> lt g n (last B)" using move(4) by simp
          show "\<And>d. lt g m d \<Longrightarrow> before (A @ n # B @ C) d m"
            using Cons.prems(4) mD move(1) by simp
          show "m \<noteq> n" by (rule False)
          show "lt g m d" by (rule d)
        qed
        with move(2) show ?thesis by simp
      qed
    qed
  qed
  have todo': "set todo \<subseteq> S" using Cons.prems(3) by simp
  from Cons.IH[OF dist' set' todo' done']
  show ?case by (simp add: plan_loop_Cons del: plan_loop.simps(2))
qed

text \<open>After \<^verbatim>\<open>find_paths\<close> on an acyclic graph, \<^verbatim>\<open><\<close> is reachability along the edges.\<close>

lemma lt_iff_reachable:
  assumes "well_formed g" "acyclic (edge_rel g)"
    "\<forall>k. dependencies_of g k = {m. (k, m) \<in> (edge_rel g)\<^sup>+}"
  shows "lt g x y \<longleftrightarrow> (x, y) \<in> (edge_rel g)\<^sup>+"
proof (cases "get_node g x")
  case None
  then have "x \<notin> set (keys g)" by (simp add: get_node_None_keys)
  with trancl_edge_rel_keys(1)[OF assms(1), of x y] have "(x, y) \<notin> (edge_rel g)\<^sup>+" by blast
  with None show ?thesis by (simp add: lt_def)
next
  case (Some nd)
  with assms(1) have nm: "name nd = x" unfolding well_formed_def by blast
  from assms(3) Some have "p_depends_on nd = {m. (x, m) \<in> (edge_rel g)\<^sup>+}"
    by (metis dependencies_of_def get_dependencies_def option.simps(5))
  moreover have "(x, x) \<notin> (edge_rel g)\<^sup>+" using assms(2) by (simp add: acyclic_def)
  ultimately show ?thesis using Some nm
    by (auto simp: lt_def node_lt_def depends_on_def)
qed

lemma names_of_well_formed:
  assumes "well_formed g"
  shows "map (\<lambda>(key, nd). name nd) (nodes g) = keys g"
proof -
  have "name nd = k" if "(k, nd) \<in> set (nodes g)" for k nd
    using assms that by (simp add: well_formed_def mem_nodes_iff)
  then show ?thesis unfolding keys_def by (intro map_cong) auto
qed

lemma create_plan_acyclic:
  assumes "well_formed g" "acyclic (edge_rel g)" "deps_sound g"
  shows "\<exists>plan g' out. create_plan (Suc lim) g = (Inr plan, g', out) \<and>
           mset plan = mset (keys g) \<and> distinct plan \<and>
           (\<forall>u v. (u, v) \<in> (edge_rel g)\<^sup>+ \<longrightarrow> before plan v u)"
proof -
  from find_paths_acyclic[OF assms, of lim]
  obtain ps g1 where f: "find_paths (Suc lim) g = (Inr ps, g1, [])"
    and s: "same_structure g g1"
    and d: "\<forall>k. dependencies_of g1 k = {m. (k, m) \<in> (edge_rel g)\<^sup>+}"
    by blast
  have wf1: "well_formed g1" using s assms(1) by (rule same_structure_well_formed)
  have E1: "edge_rel g1 = edge_rel g" by (rule same_structure_edge_rel[OF s])
  have k1: "keys g1 = keys g" by (rule same_structure_keys[OF s])
  have lt: "lt g1 x y \<longleftrightarrow> (x, y) \<in> (edge_rel g)\<^sup>+" for x y
    using lt_iff_reachable[of g1 x y] wf1 assms(2) d E1 by simp
  define plan where "plan = plan_loop g1 (keys g) (keys g) (- 1)"
  have res: "create_plan (Suc lim) g = (Inr plan, g1, [])"
    unfolding create_plan_def f by (simp add: names_of_well_formed[OF wf1] k1 plan_def Let_def)
  have ms: "mset plan = mset (keys g)" unfolding plan_def by (rule mset_plan_loop)
  have dk: "distinct (keys g)" using assms(1) by (simp add: well_formed_def)
  with ms have dp: "distinct plan" by (metis distinct_count_atmost_1 set_mset_mset)
  have "\<forall>m \<in> {} \<union> set (keys g). \<forall>d. lt g1 m d \<longrightarrow> before (plan_loop g1 (keys g) (keys g) (- 1)) d m"
  proof (rule plan_loop_order[where S = "set (keys g)"])
    show "\<not> lt g1 x x" for x
      using assms(2) by (simp add: lt acyclic_def)
    show "lt g1 x y \<Longrightarrow> lt g1 y z \<Longrightarrow> lt g1 x z" for x y z
      unfolding lt by (rule trancl_trans)
    show "lt g1 x y \<Longrightarrow> y \<in> set (keys g)" for x y
      unfolding lt by (rule trancl_edge_rel_keys(2)[OF assms(1)])
  qed (use dk in simp_all)
  then have "before plan v u" if "(u, v) \<in> (edge_rel g)\<^sup>+" for u v
    using that trancl_edge_rel_keys(1)[OF assms(1) that] by (simp add: plan_def lt)
  with res ms dp show ?thesis by blast
qed

lemma acyclic_empty: "acyclic ({} :: ('a \<times> 'a) set)"
  by (simp add: acyclic_def)

lemma small_dag_edges:
  "graph_edges small_dag = [Edge ''a'' ''b'', Edge ''a'' ''d'', Edge ''b'' ''d'', Edge ''c'' ''a'']"
  by code_simp

lemma small_dag_acyclic: "acyclic (edge_rel small_dag)"
  unfolding edge_rel_def small_dag_edges by (simp add: rtrancl_insert acyclic_empty)

text \<open>
  Claim C5.  For every acyclic graph built through the public operations \<^verbatim>\<open>create_plan\<close>
  returns a list that holds every node of the graph exactly once.
\<close>

theorem create_plan_is_permutation:
  assumes "acyclic (edge_rel (run l calls))"
  shows "\<exists>plan g' out. create_plan (Suc lim) (run l calls) = (Inr plan, g', out) \<and>
           mset plan = mset (keys (run l calls)) \<and> distinct plan"
  using create_plan_acyclic[OF well_formed_run assms deps_sound_run, of lim] by blast

theorem create_plan_is_permutation_witness:
  "acyclic (edge_rel (run 1 [Add_node ''a'' (), Add_node ''b'' (), Add_node ''c'' (), Add_node ''d'' (),
       Add_edge ''a'' ''b'', Add_edge ''a'' ''d'', Add_edge ''b'' ''d'', Add_edge ''c'' ''a'']))
   \<and> (\<exists>plan g' out.
        create_plan (Suc 0) (run 1 [Add_node ''a'' (), Add_node ''b'' (), Add_node ''c'' (), Add_node ''d'' (),
          Add_edge ''a'' ''b'', Add_edge ''a'' ''d'', Add_edge ''b'' ''d'', Add_edge ''c'' ''a''])
          = (Inr plan, g', out)
        \<and> mset plan = mset (keys (run 1 [Add_node ''a'' (), Add_node ''b'' (), Add_node ''c'' (), Add_node ''d'' (),
          Add_edge ''a'' ''b'', Add_edge ''a'' ''d'', Add_edge ''b'' ''d'', Add_edge ''c'' ''a'']))
        \<and> distinct plan)"
proof -
  have h: "acyclic (edge_rel (run 1 [Add_node ''a'' (), Add_node ''b'' (), Add_node ''c'' (), Add_node ''d'' (),
       Add_edge ''a'' ''b'', Add_edge ''a'' ''d'', Add_edge ''b'' ''d'', Add_edge ''c'' ''a'']))"
    using small_dag_acyclic by (simp only: small_dag_def)
  from create_plan_is_permutation[OF h, of 0] h show ?thesis by blast
qed

text \<open>
  Claim C1, as stated, fails: for the graph with the single edge \<open>a \<rightarrow> b\<close> the plan is
  \<open>b, a\<close>, in which \<open>a\<close> does not stand before \<open>b\<close>.
\<close>

theorem create_plan_order_counterexample:
  "acyclic (edge_rel (run 1 [Add_node ''a'' (), Add_node ''b'' (), Add_edge ''a'' ''b'']))
   \<and> Edge ''a'' ''b'' \<in> set (graph_edges (run 1 [Add_node ''a'' (), Add_node ''b'' (), Add_edge ''a'' ''b'']))
   \<and> fst (create_plan 1 (run 1 [Add_node ''a'' (), Add_node ''b'' (), Add_edge ''a'' ''b''])) = Inr [''b'', ''a'']
   \<and> \<not> before [''b'', ''a''] ''a'' ''b''"
proof -
  have e: "graph_edges (run 1 [Add_node ''a'' (), Add_node ''b'' (), Add_edge ''a'' ''b'']) = [Edge ''a'' ''b'']"
    by code_simp
  have 1: "acyclic (edge_rel (run 1 [Add_node ''a'' (), Add_node ''b'' (), Add_edge ''a'' ''b'']))"
    unfolding edge_rel_def e by (simp add: acyclic_empty)
  have 2: "Edge ''a'' ''b'' \<in> set (graph_edges (run 1 [Add_node ''a'' (), Add_node ''b'' (), Add_edge ''a'' ''b'']))"
    unfolding e by simp
  have 3: "fst (create_plan 1 (run 1 [Add_node ''a'' (), Add_node ''b'' (), Add_edge ''a'' ''b''])) = Inr [''b'', ''a'']"
    by code_simp
  have 4: "\<not> before [''b'', ''a''] ''a'' ''b''"
    by (simp add: before_Cons)
  from 1 2 3 4 show ?thesis by blast
qed

text \<open>
  Claim C1, amended.  For every acyclic graph built through the public operations and
  every edge \<open>(u, v)\<close> of it, the list returned by \<^verbatim>\<open>create_plan\<close> places \<open>v\<close> strictly
  before \<open>u\<close>: a node stands behind the nodes it depends on.
\<close>

theorem create_plan_dependencies_first:
  assumes "acyclic (edge_rel (run l calls))" "Edge u v \<in> set (graph_edges (run l calls))"
  shows "\<exists>plan g' out. create_plan (Suc lim) (run l calls) = (Inr plan, g', out) \<and> before plan v u"
proof -
  from assms(2) have "(u, v) \<in> edge_rel (run l calls)"
    by (simp add: graph_edges_iff[OF well_formed_run])
  then have "(u, v) \<in> (edge_rel (run l calls))\<^sup>+" by (rule r_into_trancl)
  with create_plan_acyclic[OF well_formed_run assms(1) deps_sound_run, of lim]
  show ?thesis by blast
qed

theorem create_plan_dependencies_first_witness:
  "acyclic (edge_rel (run 1 [Add_node ''a'' (), Add_node ''b'' (), Add_node ''c'' (), Add_node ''d'' (),
       Add_edge ''a'' ''b'', Add_edge ''a'' ''d'', Add_edge ''b'' ''d'', Add_edge ''c'' ''a'']))
   \<and> Edge ''c'' ''a'' \<in> set (graph_edges (run 1 [Add_node ''a'' (), Add_node ''b'' (), Add_node ''c'' (),
       Add_node ''d'' (), Add_edge ''a'' ''b'', Add_edge ''a'' ''d'', Add_edge ''b'' ''d'', Add_edge ''c'' ''a'']))
   \<and> (\<exists>plan g' out.
        create_plan (Suc 0) (run 1 [Add_node ''a'' (), Add_node ''b'' (), Add_node ''c'' (), Add_node ''d'' (),
          Add_edge ''a'' ''b'', Add_edge ''a'' ''d'', Add_edge ''b'' ''d'', Add_edge ''c'' ''a''])
          = (Inr plan, g', out)
        \<and> before plan ''a'' ''c'')"
proof -
  have h: "acyclic (edge_rel (run 1 [Add_node ''a'' (), Add_node ''b'' (), Add_node ''c'' (), Add_node ''d'' (),
       Add_edge ''a'' ''b'', Add_edge ''a'' ''d'', Add_edge ''b'' ''d'', Add_edge ''c'' ''a'']))"
    using small_dag_acyclic by (simp only: small_dag_def)
  have e: "Edge ''c'' ''a'' \<in> set (graph_edges (run 1 [Add_node ''a'' (), Add_node ''b'' (), Add_node ''c'' (),
       Add_node ''d'' (), Add_edge ''a'' ''b'', Add_edge ''a'' ''d'', Add_edge ''b'' ''d'', Add_edge ''c'' ''a'']))"
    using small_dag_edges by (simp add: small_dag_def)
  from create_plan_dependencies_first[OF h e, of 0] h e show ?thesis by blast
qed

section \<open>Further properties\<close>

text \<open>
  On an acyclic graph built through the public operations \<^verbatim>\<open>find_paths\<close> returns without
  printing, and afterwards the dependency set of every node is exactly the set of the
  nodes that are reachable from it by one or more edges.
\<close>

theorem dependencies_are_reachable_nodes:
  assumes "acyclic (edge_rel (run l calls))"
  shows "\<exists>ps g'. find_paths (Suc lim) (run l calls) = (Inr ps, g', []) \<and>
           (\<forall>k. dependencies_of g' k = {m. (k, m) \<in> (edge_rel (run l calls))\<^sup>+})"
  using find_paths_acyclic[OF well_formed_run assms deps_sound_run, of lim] by blast

theorem dependencies_are_reachable_nodes_witness:
  "acyclic (edge_rel (run 1 [Add_node ''a'' (), Add_node ''b'' (), Add_node ''c'' (), Add_node ''d'' (),
       Add_edge ''a'' ''b'', Add_edge ''a'' ''d'', Add_edge ''b'' ''d'', Add_edge ''c'' ''a'']))
   \<and> (\<exists>ps g'.
        find_paths (Suc 0) (run 1 [Add_node ''a'' (), Add_node ''b'' (), Add_node ''c'' (), Add_node ''d'' (),
          Add_edge ''a'' ''b'', Add_edge ''a'' ''d'', Add_edge ''b'' ''d'', Add_edge ''c'' ''a''])
          = (Inr ps, g', [])
        \<and> (\<forall>k. dependencies_of g' k
              = {m. (k, m) \<in> (edge_rel (run 1 [Add_node ''a'' (), Add_node ''b'' (), Add_node ''c'' (),
                   Add_node ''d'' (), Add_edge ''a'' ''b'', Add_edge ''a'' ''d'', Add_edge ''b'' ''d'',
                   Add_edge ''c'' ''a'']))\<^sup>+}))"
proof -
  have h: "acyclic (edge_rel (run 1 [Add_node ''a'' (), Add_node ''b'' (), Add_node ''c'' (), Add_node ''d'' (),
       Add_edge ''a'' ''b'', Add_edge ''a'' ''d'', Add_edge ''b'' ''d'', Add_edge ''c'' ''a'']))"
    using small_dag_acyclic by (simp only: small_dag_def)
  from dependencies_are_reachable_nodes[OF h, of 0] h show ?thesis by blast
qed

text \<open>
  On no graph built through the public operations does \<^verbatim>\<open>find_paths\<close> fail with the
  cycle error, and it never prints: the \<^verbatim>\<open>raise\<close> behind \<^verbatim>\<open>self.dump()\<close> is not reached.
\<close>

theorem cycle_error_never_raised:
  "fst (find_paths lim (run l calls)) \<noteq> Inl CycleDetected \<and>
   snd (snd (find_paths lim (run l calls))) = []"
proof (cases lim)
  case 0
  then show ?thesis by simp
next
  case (Suc k)
  let ?g = "run l calls"
  have wf: "well_formed ?g" by (rule well_formed_run)
  then have dirty: "cache_dirty ?g" by (simp add: well_formed_def)
  have roots: "root_nodes_loop (nodes ?g) [] = Inr (filter (is_root ?g) (keys ?g))"
    by (rule root_nodes_loop_well_formed[OF wf])
  obtain r g1 where e: "explore_roots ?g (filter (is_root ?g) (keys ?g)) [] = (r, g1)"
    by (cases "explore_roots ?g (filter (is_root ?g) (keys ?g)) []")
  show ?thesis
  proof (cases r)
    case None
    with e have "fst (explore_roots ?g (filter (is_root ?g) (keys ?g)) []) = None" by simp
    from find_paths_cycle_descends[OF dirty roots this, of lim] show ?thesis by simp
  next
    case (Some ps)
    with find_paths_success[OF dirty roots e[unfolded Some], of k] Suc show ?thesis by simp
  qed
qed

end
